theory Spec2Isabelle
  imports Main "HOL-Library.Sublist"
begin

section \<open>The service of \<^verbatim>\<open>service/service.go\<close>\<close>

subsection \<open>Data\<close>

text \<open>
  A \<^verbatim>\<open>*net.TCPConn\<close> is known to the service by its identity and by what
  \<^verbatim>\<open>conn.RemoteAddr()\<close> returns; a \<^verbatim>\<open>net.Addr\<close> is kept as its text.
\<close>

type_synonym addr = string

datatype TCPConn = TCPConn (conn_id: nat) (RemoteAddr: addr)

text \<open>\<^verbatim>\<open>type ClientInfo struct { Address net.Addr }\<close>\<close>

record ClientInfo =
  Address :: addr

text \<open>
  \<^verbatim>\<open>skynet.ServiceHandshake{Registered: ..., ClientID: ...}\<close>, the message the
  server encodes on an accepted connection.
\<close>

datatype ServiceHandshake = ServiceHandshake (sh_Registered: bool) (sh_ClientID: string)

datatype level = ERROR | INFO

text \<open>
  Everything the service does to the world outside its own fields, in the order it does
  it: the calls on the connection, on the log, on the service manager (the directory)
  and on the delegate, the goroutines it starts, and the operations on its wait groups
  and channels.
\<close>

datatype action =
    Encode TCPConn ServiceHandshake
  | Decode TCPConn
  | Close TCPConn
  | ServeCodec TCPConn
  | Log level string
  | ManagerAdd
  | ManagerRegister
  | ManagerUnregister
  | ManagerRemove
  | DelegateStarted
  | DelegateStopped
  | DelegateRegistered
  | DelegateUnregistered
  | GoDrain
  | Panic string
  | SetShuttingDown
  | SendRegistered bool
  | SendDone
  | DoneGroupAdd
  | DoneGroupDone
  | ActiveRequestsAdd
  | ActiveRequestsDone
  | ActiveRequestsWait
  | BindWaitDone
  | BindWaitWait

text \<open>
  The fields of \<^verbatim>\<open>Service\<close> that the code of this file reads and writes.
  \<^verbatim>\<open>Registered\<close> is the field of the embedded \<^verbatim>\<open>skynet.ServiceInfo\<close>;
  \<^verbatim>\<open>activeRequests\<close> is the counter of that \<^verbatim>\<open>sync.WaitGroup\<close>;
  \<^verbatim>\<open>doneGroup\<close> is a pointer, \<open>None\<close> while it is \<^verbatim>\<open>nil\<close> and
  otherwise the counter of the wait group it points to; \<^verbatim>\<open>doneChan\<close> is
  \<open>None\<close> while the channel is \<^verbatim>\<open>nil\<close> and otherwise the values waiting in
  the channel made by \<^verbatim>\<open>make(chan bool, 1)\<close>. The channels
  \<^verbatim>\<open>connectionChan\<close> and \<^verbatim>\<open>registeredChan\<close> are unbuffered and hold
  nothing.
\<close>

record Service =
  Registered :: bool
  ClientInfo :: "string \<rightharpoonup> ClientInfo"
  shuttingDown :: bool
  activeRequests :: nat
  doneChan :: "bool list option"
  doneGroup :: "nat option"

text \<open>
  What the collaborators outside this file answer while the actor handles one event:
  the identifier \<^verbatim>\<open>skynet.UUID()\<close> returns, the errors of
  \<^verbatim>\<open>encoder.Encode\<close> and \<^verbatim>\<open>decoder.Decode\<close>, and the error of the
  service manager's \<^verbatim>\<open>Register\<close> or \<^verbatim>\<open>Unregister\<close>
  (\<open>None\<close> is Go's \<^verbatim>\<open>nil\<close>).
\<close>

record env =
  uuid :: string
  encode_err :: "string option"
  decode_err :: "string option"
  manager_err :: "string option"

text \<open>What one \<^verbatim>\<open>select\<close> of \<^verbatim>\<open>mux\<close> receives.\<close>

datatype msg =
    ConnMsg TCPConn
  | RegisteredMsg bool
  | DoneMsg

subsection \<open>The lifecycle operations run by the actor\<close>

text \<open>\<^verbatim>\<open>func (s *Service) register()\<close>, lines 76 to 90.\<close>

definition register :: "string option \<Rightarrow> 'a Service_scheme \<Rightarrow> action list \<times> 'a Service_scheme" where
  "register err s =
     (if Registered s then ([], s)
      else
        ([ManagerRegister]
           @ (case err of
                None \<Rightarrow> []
              | Some e \<Rightarrow> [Log ERROR (''Failed to register service: '' @ e)])
           @ [Log INFO ''ServiceRegistered'', DelegateRegistered],
         s\<lparr>Registered := True\<rparr>))"

text \<open>\<^verbatim>\<open>func (s *Service) unregister()\<close>, lines 97 to 111.\<close>

definition unregister :: "string option \<Rightarrow> 'a Service_scheme \<Rightarrow> action list \<times> 'a Service_scheme" where
  "unregister err s =
     (if \<not> Registered s then ([], s)
      else
        ([ManagerUnregister]
           @ (case err of
                None \<Rightarrow> []
              | Some e \<Rightarrow> [Log ERROR (''Failed to unregister service: '' @ e)])
           @ [Log INFO ''ServiceUnregistered'', DelegateUnregistered],
         s\<lparr>Registered := False\<rparr>))"

text \<open>
  \<^verbatim>\<open>func (s *Service) getClientInfo(clientID string) (ci ClientInfo, ok bool)\<close>:
  the pair of the value and \<^verbatim>\<open>ok\<close> is an option.
\<close>

definition getClientInfo :: "'a Service_scheme \<Rightarrow> string \<Rightarrow> ClientInfo option" where
  "getClientInfo s clientID = ClientInfo s clientID"

subsection \<open>The actor\<close>

text \<open>
  The case \<^verbatim>\<open>conn := <-s.connectionChan\<close> of \<^verbatim>\<open>mux\<close>, lines 220 to 257.
  Each \<^verbatim>\<open>break\<close> leaves the \<^verbatim>\<open>select\<close> and the loop goes on.
\<close>

definition mux_connection :: "TCPConn \<Rightarrow> env \<Rightarrow> 'a Service_scheme \<Rightarrow> action list \<times> 'a Service_scheme" where
  "mux_connection conn e s =
     (let clientID = uuid e;
          s1 = s\<lparr>ClientInfo := (ClientInfo s)(clientID \<mapsto> \<lparr>Address = RemoteAddr conn\<rparr>)\<rparr>;
          sh = ServiceHandshake (Registered s1) clientID
      in case encode_err e of
           Some err \<Rightarrow> ([Encode conn sh, Log ERROR err], s1)
         | None \<Rightarrow>
             if \<not> Registered s1 then ([Encode conn sh, Close conn], s1)
             else
               (case decode_err e of
                  Some err \<Rightarrow>
                    ([Encode conn sh, Decode conn,
                      Log ERROR (''Error calling bsonrpc.NewDecoder: '' @ err)], s1)
                | None \<Rightarrow> ([Encode conn sh, Decode conn, ServeCodec conn], s1)))"

text \<open>
  One turn of the loop of \<^verbatim>\<open>mux\<close> on the message its \<^verbatim>\<open>select\<close> received:
  the actions, the service afterwards, and whether the loop was left
  (\<^verbatim>\<open>break loop\<close>).
\<close>

fun mux_select :: "msg \<Rightarrow> env \<Rightarrow> 'a Service_scheme \<Rightarrow> action list \<times> 'a Service_scheme \<times> bool" where
  "mux_select (ConnMsg conn) e s = (let (as, s') = mux_connection conn e s in (as, s', False))"
| "mux_select (RegisteredMsg reg) e s =
     (let (as, s') = (if reg then register (manager_err e) s else unregister (manager_err e) s)
      in (as, s', False))"
| "mux_select DoneMsg e s = ([GoDrain], s, True)"

text \<open>
  \<^verbatim>\<open>func (s *Service) mux()\<close> on the messages its channels deliver, in the order
  the \<^verbatim>\<open>select\<close> takes them. The loop ends at the first \<^verbatim>\<open>DoneMsg\<close>; when
  the messages run out before that, the actor is waiting in \<^verbatim>\<open>select\<close> and the
  result says so (\<open>False\<close>).
\<close>

fun mux :: "(msg \<times> env) list \<Rightarrow> 'a Service_scheme \<Rightarrow> action list \<times> 'a Service_scheme \<times> bool" where
  "mux [] s = ([], s, False)"
| "mux ((m, e) # evs) s =
     (case mux_select m e s of
        (as, s', True) \<Rightarrow> (as, s', True)
      | (as, s', False) \<Rightarrow> (case mux evs s' of (bs, s'', b) \<Rightarrow> (as @ bs, s'', b)))"


subsection \<open>The goroutines\<close>

text \<open>
  The statements of \<^verbatim>\<open>Shutdown\<close>, \<^verbatim>\<open>Start\<close> and \<^verbatim>\<open>listen\<close> run in
  goroutines of their own, next to the actor. A goroutine is at a line of the source: the
  statement it runs next. \<open>Sh116\<close> is the \<^verbatim>\<open>return\<close> of the guard of
  \<^verbatim>\<open>Shutdown\<close>, \<open>Sh137\<close> the end of the function; \<open>St180\<close> is the
  \<^verbatim>\<open>return\<close> of \<^verbatim>\<open>Start\<close>.
\<close>

datatype shutdown_pc =
  Sh115 | Sh116 | Sh119 | Sh121 | Sh123 | Sh125 | Sh127 | Sh129 | Sh134 | Sh136 | Sh137

datatype start_pc =
  St146 | St155 | St158 | St160 | St163 | St169 | St174 | St175 | St178 | St180

text \<open>
  \<^verbatim>\<open>Register()\<close> and \<^verbatim>\<open>Unregister()\<close> are one send on the unbuffered
  \<^verbatim>\<open>registeredChan\<close> (lines 73 and 94): the caller is sending until the actor's
  \<^verbatim>\<open>select\<close> receives, and has returned afterwards.
\<close>

datatype send_pc = Sending | Returned

text \<open>
  A goroutine that called into the service: \<^verbatim>\<open>Start(register)\<close>,
  \<^verbatim>\<open>Register()\<close>, \<^verbatim>\<open>Unregister()\<close> or \<^verbatim>\<open>Shutdown()\<close>
  (\<^verbatim>\<open>watchSignals\<close> calls \<^verbatim>\<open>Shutdown()\<close> on a signal).
\<close>

datatype thread =
    InStart bool start_pc
  | InRegister send_pc
  | InUnregister send_pc
  | InShutdown shutdown_pc

datatype call = CallRegister | CallUnregister | CallShutdown

text \<open>
  The goroutine started at line 163, \<^verbatim>\<open>go func() { s.mux(); s.doneGroup.Done() }()\<close>:
  waiting in the \<^verbatim>\<open>select\<close>, holding the message it received, back from
  \<^verbatim>\<open>mux\<close> and before line 165, or finished.
\<close>

datatype actor_state = NotStarted | Selecting | Handling msg | AfterMux | Finished

text \<open>
  The goroutine started at line 149, \<^verbatim>\<open>go s.listen(...)\<close>: at line 193
  (\<^verbatim>\<open>addr.Listen()\<close>), at lines 198 to 203 (the log line and
  \<^verbatim>\<open>bindWait.Done()\<close>), at line 206 (\<^verbatim>\<open>AcceptTCP()\<close>), or at line 210,
  sending the connection on the unbuffered \<^verbatim>\<open>connectionChan\<close>.
\<close>

datatype listener_state = NoListener | AtListen | AtBindDone | AtAccept | AtSend TCPConn

text \<open>Who did an action: the trace of a run keeps the goroutine next to each action.\<close>

datatype who = Actor | Thread nat | ListenerG | Serving | Process

text \<open>
  The whole system: the service, the goroutines, the counter of \<^verbatim>\<open>bindWait\<close>,
  what \<^verbatim>\<open>addr.Listen()\<close> answers for the configured address (\<open>bind_err\<close>),
  whether a panic has ended the process, and the actions so far. The calls
  \<^verbatim>\<open>Add(s.ServiceInfo)\<close> (line 169) and \<^verbatim>\<open>Remove(s.ServiceInfo)\<close> (line 129)
  pass the embedded struct by value: \<open>serviceInfoCopies\<close> keeps, for each such copy,
  the goroutine that made it and the \<^verbatim>\<open>Registered\<close> it read.
\<close>

record System = Service +
  threads :: "thread list"
  actor :: actor_state
  listener :: listener_state
  drain :: bool
  bindWait :: nat
  bind_err :: "string option"
  crashed :: bool
  trace :: "(who \<times> action) list"
  serviceInfoCopies :: "(who \<times> bool) list"

definition emit :: "who \<Rightarrow> action list \<Rightarrow> System \<Rightarrow> System" where
  "emit w as s = s\<lparr>trace := trace s @ map (Pair w) as\<rparr>"

text \<open>A \<^verbatim>\<open>panic\<close> that nothing recovers ends the process: no goroutine moves afterwards.\<close>

definition crash :: "string \<Rightarrow> System \<Rightarrow> System" where
  "crash e s = s\<lparr>crashed := True, trace := trace s @ [(Process, Panic e)]\<rparr>"

definition set_thread :: "nat \<Rightarrow> thread \<Rightarrow> System \<Rightarrow> System" where
  "set_thread t th s = s\<lparr>threads := (threads s)[t := th]\<rparr>"

text \<open>The log line of a service manager call that failed.\<close>

definition manager_log :: "string \<Rightarrow> string option \<Rightarrow> action list" where
  "manager_log what r = (case r of None \<Rightarrow> [] | Some e \<Rightarrow> [Log ERROR (what @ e)])"

text \<open>
  \<^verbatim>\<open>func (s *Service) Shutdown()\<close>, lines 114 to 137, one statement at a time, run
  by thread \<open>t\<close>; \<open>r\<close> is the error of the service manager's \<^verbatim>\<open>Remove\<close>. A
  statement that blocks leaves the state as it is: the send of \<^verbatim>\<open>s.Unregister()\<close>
  at line 121 completes only in the actor's receive (\<open>recv_registered\<close> below), the send
  at line 125 needs room in \<^verbatim>\<open>doneChan\<close>, and \<^verbatim>\<open>activeRequests.Wait()\<close>
  needs the counter at zero. \<^verbatim>\<open>Add\<close> and \<^verbatim>\<open>Done\<close> on a nil
  \<^verbatim>\<open>doneGroup\<close>, and a \<^verbatim>\<open>Done\<close> that would take the counter below zero,
  panic.
\<close>

fun Shutdown :: "nat \<Rightarrow> shutdown_pc \<Rightarrow> string option \<Rightarrow> System \<Rightarrow> System" where
  "Shutdown t Sh115 r s =
     (if shuttingDown s then set_thread t (InShutdown Sh116) s
      else set_thread t (InShutdown Sh119) s)"
| "Shutdown t Sh116 r s = s"
| "Shutdown t Sh119 r s =
     emit (Thread t) [SetShuttingDown] (set_thread t (InShutdown Sh121) (s\<lparr>shuttingDown := True\<rparr>))"
| "Shutdown t Sh121 r s = s"
| "Shutdown t Sh123 r s =
     (case doneGroup s of
        None \<Rightarrow> crash ''nil pointer dereference'' s
      | Some n \<Rightarrow>
          emit (Thread t) [DoneGroupAdd]
            (set_thread t (InShutdown Sh125) (s\<lparr>doneGroup := Some (n + 1)\<rparr>)))"
| "Shutdown t Sh125 r s =
     (case doneChan s of
        None \<Rightarrow> s
      | Some q \<Rightarrow>
          if length q < 1
          then emit (Thread t) [SendDone]
                 (set_thread t (InShutdown Sh127) (s\<lparr>doneChan := Some (q @ [True])\<rparr>))
          else s)"
| "Shutdown t Sh127 r s =
     (if activeRequests s = 0
      then emit (Thread t) [ActiveRequestsWait] (set_thread t (InShutdown Sh129) s)
      else s)"
| "Shutdown t Sh129 r s =
     emit (Thread t) (ManagerRemove # manager_log ''Failed to remove service: '' r)
       (set_thread t (InShutdown Sh134)
          (s\<lparr>serviceInfoCopies := serviceInfoCopies s @ [(Thread t, Registered s)]\<rparr>))"
| "Shutdown t Sh134 r s =
     emit (Thread t) [DelegateStopped] (set_thread t (InShutdown Sh136) s)"
| "Shutdown t Sh136 r s =
     (case doneGroup s of
        None \<Rightarrow> crash ''nil pointer dereference'' s
      | Some 0 \<Rightarrow> crash ''sync: negative WaitGroup counter'' s
      | Some (Suc n) \<Rightarrow>
          emit (Thread t) [DoneGroupDone]
            (set_thread t (InShutdown Sh137) (s\<lparr>doneGroup := Some n\<rparr>)))"
| "Shutdown t Sh137 r s = s"

text \<open>
  \<^verbatim>\<open>func (s *Service) Start(register bool)\<close>, lines 145 to 181, one statement at a
  time; \<open>r\<close> is the error of the service manager's \<^verbatim>\<open>Add\<close>. Lines 146 to 153
  make \<^verbatim>\<open>bindWait\<close>, add one to it and start the listener (and the signal watcher,
  whose calls of \<^verbatim>\<open>Shutdown\<close> are calls like any other). \<^verbatim>\<open>bindWait.Wait()\<close>
  at line 158 blocks while the counter is not zero; \<^verbatim>\<open>s.Register()\<close> at line 175 is
  the send that completes in the actor's receive.
\<close>

fun Start :: "nat \<Rightarrow> bool \<Rightarrow> start_pc \<Rightarrow> string option \<Rightarrow> System \<Rightarrow> System" where
  "Start t reg St146 r s =
     set_thread t (InStart reg St155) (s\<lparr>bindWait := 1, listener := AtListen\<rparr>)"
| "Start t reg St155 r s = set_thread t (InStart reg St158) (s\<lparr>doneChan := Some []\<rparr>)"
| "Start t reg St158 r s =
     (if bindWait s = 0
      then emit (Thread t) [BindWaitWait] (set_thread t (InStart reg St160) s)
      else s)"
| "Start t reg St160 r s = set_thread t (InStart reg St163) (s\<lparr>doneGroup := Some 1\<rparr>)"
| "Start t reg St163 r s = set_thread t (InStart reg St169) (s\<lparr>actor := Selecting\<rparr>)"
| "Start t reg St169 r s =
     emit (Thread t) (ManagerAdd # manager_log ''Failed to add service: '' r)
       (set_thread t (InStart reg St174)
          (s\<lparr>serviceInfoCopies := serviceInfoCopies s @ [(Thread t, Registered s)]\<rparr>))"
| "Start t reg St174 r s =
     (if reg then set_thread t (InStart reg St175) s else set_thread t (InStart reg St178) s)"
| "Start t reg St175 r s = s"
| "Start t reg St178 r s =
     emit (Thread t) [DelegateStarted] (set_thread t (InStart reg St180) s)"
| "Start t reg St180 r s = s"

text \<open>
  \<^verbatim>\<open>func (s *Service) listen(...)\<close>, lines 191 to 212, one statement at a time;
  \<open>a\<close> is what \<^verbatim>\<open>AcceptTCP()\<close> answers when the listener is at line 206. The send
  at line 210 completes in the actor's receive (\<open>recv_connection\<close>).
\<close>

fun listen :: "listener_state \<Rightarrow> string + TCPConn \<Rightarrow> System \<Rightarrow> System" where
  "listen NoListener a s = s"
| "listen AtListen a s =
     (case bind_err s of
        Some e \<Rightarrow> crash e s
      | None \<Rightarrow> emit ListenerG [Log INFO ''ServiceListening''] (s\<lparr>listener := AtBindDone\<rparr>))"
| "listen AtBindDone a s =
     (case bindWait s of
        0 \<Rightarrow> crash ''sync: negative WaitGroup counter'' s
      | Suc n \<Rightarrow> emit ListenerG [BindWaitDone] (s\<lparr>bindWait := n, listener := AtAccept\<rparr>))"
| "listen AtAccept a s =
     (case a of
        Inl e \<Rightarrow> crash e s
      | Inr conn \<Rightarrow> s\<lparr>listener := AtSend conn\<rparr>)"
| "listen (AtSend conn) a s = s"

text \<open>
  The value a thread is sending on \<^verbatim>\<open>registeredChan\<close>, if it is at such a send,
  and where the thread is once the send has completed.
\<close>

fun sending :: "thread \<Rightarrow> (bool \<times> thread) option" where
  "sending (InStart reg St175) = Some (True, InStart reg St178)"
| "sending (InRegister Sending) = Some (True, InRegister Returned)"
| "sending (InUnregister Sending) = Some (False, InUnregister Returned)"
| "sending (InShutdown Sh121) = Some (False, InShutdown Sh123)"
| "sending th = None"

text \<open>
  The three receives of the \<^verbatim>\<open>select\<close> of \<^verbatim>\<open>mux\<close>, each possible only
  while the actor is in the \<^verbatim>\<open>select\<close> and the channel has a sender (or, for
  \<^verbatim>\<open>doneChan\<close>, a value).
\<close>

definition recv_registered :: "nat \<Rightarrow> System \<Rightarrow> System" where
  "recv_registered t s =
     (if actor s = Selecting \<and> t < length (threads s)
      then (case sending (threads s ! t) of
              None \<Rightarrow> s
            | Some (b, th) \<Rightarrow>
                emit (Thread t) [SendRegistered b]
                  (set_thread t th (s\<lparr>actor := Handling (RegisteredMsg b)\<rparr>)))
      else s)"

definition recv_connection :: "System \<Rightarrow> System" where
  "recv_connection s =
     (if actor s = Selecting
      then (case listener s of
              AtSend conn \<Rightarrow> s\<lparr>actor := Handling (ConnMsg conn), listener := AtAccept\<rparr>
            | _ \<Rightarrow> s)
      else s)"

definition recv_done :: "System \<Rightarrow> System" where
  "recv_done s =
     (if actor s = Selecting
      then (case doneChan s of
              Some (x # q) \<Rightarrow> s\<lparr>doneChan := Some q, actor := Handling DoneMsg\<rparr>
            | _ \<Rightarrow> s)
      else s)"

text \<open>
  The actor handles the message it holds, by the body of \<^verbatim>\<open>mux\<close>; on
  \<^verbatim>\<open>break loop\<close> the goroutine of lines 265 to 268 is running and \<^verbatim>\<open>mux\<close>
  has returned.
\<close>

definition handle :: "env \<Rightarrow> System \<Rightarrow> System" where
  "handle e s =
     (case actor s of
        Handling m \<Rightarrow>
          (case mux_select m e s of
             (as, s', left) \<Rightarrow>
               emit Actor as
                 (s'\<lparr>actor := (if left then AfterMux else Selecting),
                     drain := (drain s' \<or> left)\<rparr>))
      | _ \<Rightarrow> s)"

text \<open>Line 165, \<^verbatim>\<open>s.doneGroup.Done()\<close> after \<^verbatim>\<open>mux\<close> has returned.\<close>

definition actor_return :: "System \<Rightarrow> System" where
  "actor_return s =
     (if actor s = AfterMux
      then (case doneGroup s of
              None \<Rightarrow> crash ''nil pointer dereference'' s
            | Some 0 \<Rightarrow> crash ''sync: negative WaitGroup counter'' s
            | Some (Suc n) \<Rightarrow>
                emit Actor [DoneGroupDone] (s\<lparr>doneGroup := Some n, actor := Finished\<rparr>))
      else s)"

text \<open>
  Lines 265 to 268, \<^verbatim>\<open>for _ = range s.doneChan { }\<close>: the goroutine receives a
  value when there is one and drops it.
\<close>

definition drain_recv :: "System \<Rightarrow> System" where
  "drain_recv s =
     (if drain s
      then (case doneChan s of Some (x # q) \<Rightarrow> s\<lparr>doneChan := Some q\<rparr> | _ \<Rightarrow> s)
      else s)"

text \<open>
  Modelled from the spec: the RPC forwarder of \<^verbatim>\<open>NewServiceRPC\<close>, which is not
  in this file, keeps \<^verbatim>\<open>activeRequests\<close> as the "in-flight-request counter": it
  adds one when a request starts and calls \<^verbatim>\<open>Done()\<close> when the request has
  finished, so that a request ends only after it began.
\<close>

definition request_begin :: "System \<Rightarrow> System" where
  "request_begin s = emit Serving [ActiveRequestsAdd] (s\<lparr>activeRequests := activeRequests s + 1\<rparr>)"

definition request_end :: "System \<Rightarrow> System" where
  "request_end s =
     (case activeRequests s of
        0 \<Rightarrow> s
      | Suc n \<Rightarrow> emit Serving [ActiveRequestsDone] (s\<lparr>activeRequests := n\<rparr>))"

text \<open>A goroutine calls \<^verbatim>\<open>Register()\<close>, \<^verbatim>\<open>Unregister()\<close> or \<^verbatim>\<open>Shutdown()\<close>.\<close>

fun entry :: "call \<Rightarrow> thread" where
  "entry CallRegister = InRegister Sending"
| "entry CallUnregister = InUnregister Sending"
| "entry CallShutdown = InShutdown Sh115"

definition run :: "nat \<Rightarrow> string option \<Rightarrow> System \<Rightarrow> System" where
  "run t r s =
     (if t < length (threads s)
      then (case threads s ! t of
              InStart reg pc \<Rightarrow> Start t reg pc r s
            | InShutdown pc \<Rightarrow> Shutdown t pc r s
            | InRegister pc \<Rightarrow> s
            | InUnregister pc \<Rightarrow> s)
      else s)"

text \<open>
  What the scheduler and the world outside decide: which goroutine moves next, which
  ready channel the \<^verbatim>\<open>select\<close> takes, and what the collaborators answer.
\<close>

datatype choice =
    Call call
  | Run nat "string option"
  | RecvRegistered nat
  | RecvConnection
  | RecvDone
  | Handle env
  | ActorReturn
  | Drain
  | Listen "string + TCPConn"
  | RequestBegin
  | RequestEnd

definition step :: "System \<Rightarrow> choice \<Rightarrow> System" where
  "step s c =
     (if crashed s then s
      else (case c of
              Call k \<Rightarrow> s\<lparr>threads := threads s @ [entry k]\<rparr>
            | Run t r \<Rightarrow> run t r s
            | RecvRegistered t \<Rightarrow> recv_registered t s
            | RecvConnection \<Rightarrow> recv_connection s
            | RecvDone \<Rightarrow> recv_done s
            | Handle e \<Rightarrow> handle e s
            | ActorReturn \<Rightarrow> actor_return s
            | Drain \<Rightarrow> drain_recv s
            | Listen a \<Rightarrow> listen (listener s) a s
            | RequestBegin \<Rightarrow> request_begin s
            | RequestEnd \<Rightarrow> request_end s))"

fun exec :: "System \<Rightarrow> choice list \<Rightarrow> System" where
  "exec s [] = s"
| "exec s (c # cs) = exec (step s c) cs"

text \<open>
  The service \<^verbatim>\<open>CreateService\<close> returns, with one goroutine about to run
  \<^verbatim>\<open>Start(reg)\<close>; \<open>be\<close> is what binding the configured address will answer.
\<close>

definition init :: "bool \<Rightarrow> string option \<Rightarrow> System" where
  "init reg be =
     \<lparr>Registered = False, ClientInfo = Map.empty, shuttingDown = False, activeRequests = 0,
      doneChan = None, doneGroup = None,
      threads = [InStart reg St146], actor = NotStarted, listener = NoListener,
      drain = False, bindWait = 0, bind_err = be, crashed = False, trace = [],
      serviceInfoCopies = []\<rparr>"

text \<open>The actions of one goroutine, in the order it did them.\<close>

definition performed :: "who \<Rightarrow> System \<Rightarrow> action list" where
  "performed w s = map snd (filter (\<lambda>p. fst p = w) (trace s))"

subsection \<open>The service at creation\<close>

text \<open>
  \<^verbatim>\<open>func CreateService(sd ServiceDelegate, c skynet.ServiceConfig)\<close>, lines 51 to 69:
  the flags are false, the client map is empty, and \<^verbatim>\<open>doneChan\<close> and
  \<^verbatim>\<open>doneGroup\<close> are not set before \<^verbatim>\<open>Start\<close>.
\<close>

definition CreateService :: Service where
  "CreateService =
     \<lparr>Registered = False, ClientInfo = Map.empty, shuttingDown = False, activeRequests = 0,
      doneChan = None, doneGroup = None\<rparr>"

text \<open>Answers of the collaborators with no error, for the identifier \<open>u\<close>.\<close>

definition answers :: "string \<Rightarrow> env" where
  "answers u = \<lparr>uuid = u, encode_err = None, decode_err = None, manager_err = None\<rparr>"

subsection \<open>The words of the specification\<close>

text \<open>
  The specification speaks of "the result of the last call that has completed processing
  before that handshake begins": the values of the \<^verbatim>\<open>register()\<close> and
  \<^verbatim>\<open>unregister()\<close> events among the messages handled so far, and the last of
  them, or the flag the service started with when there is none.
\<close>

definition toggles :: "(msg \<times> env) list \<Rightarrow> bool list" where
  "toggles evs = concat (map (\<lambda>(m, e). case m of RegisteredMsg b \<Rightarrow> [b] | _ \<Rightarrow> []) evs)"

definition last_toggle :: "bool \<Rightarrow> (msg \<times> env) list \<Rightarrow> bool" where
  "last_toggle r0 evs = last (r0 # toggles evs)"

subsection \<open>Invariants of the runs\<close>

text \<open>
  While the address is not bound: \<^verbatim>\<open>Start\<close> is not past \<^verbatim>\<open>bindWait.Wait()\<close>,
  with the counter at one from line 148 on, and a \<^verbatim>\<open>Shutdown\<close> is not past its send
  on \<^verbatim>\<open>registeredChan\<close>.
\<close>

fun before_bind :: "nat \<Rightarrow> thread \<Rightarrow> bool" where
  "before_bind bw (InStart reg pc) = (pc = St146 \<or> ((pc = St155 \<or> pc = St158) \<and> bw = 1))"
| "before_bind bw (InShutdown pc) = (pc = Sh115 \<or> pc = Sh116 \<or> pc = Sh119 \<or> pc = Sh121)"
| "before_bind bw (InRegister pc) = (pc = Sending)"
| "before_bind bw (InUnregister pc) = (pc = Sending)"

text \<open>The actions that can happen while the address is not bound.\<close>

fun before_bind_action :: "action \<Rightarrow> bool" where
  "before_bind_action SetShuttingDown = True"
| "before_bind_action (Panic e) = True"
| "before_bind_action ActiveRequestsAdd = True"
| "before_bind_action ActiveRequestsDone = True"
| "before_bind_action a = False"

definition unbound :: "System \<Rightarrow> bool" where
  "unbound s \<longleftrightarrow>
     bind_err s \<noteq> None \<and> actor s = NotStarted \<and> \<not> Registered s
     \<and> (listener s = NoListener \<or> listener s = AtListen)
     \<and> (\<forall>th \<in> set (threads s). before_bind (bindWait s) th)
     \<and> (\<forall>p \<in> set (trace s). before_bind_action (snd p))"

text \<open>
  What a goroutine has done by the time it is at a line of \<^verbatim>\<open>Shutdown\<close> or
  \<^verbatim>\<open>Start\<close>, or in \<^verbatim>\<open>Register()\<close> or \<^verbatim>\<open>Unregister()\<close>; \<open>r\<close> is
  the error the service manager answered to its \<^verbatim>\<open>Remove\<close> or \<^verbatim>\<open>Add\<close>.
\<close>

fun Shutdown_progress :: "shutdown_pc \<Rightarrow> string option \<Rightarrow> action list" where
  "Shutdown_progress Sh115 r = []"
| "Shutdown_progress Sh116 r = []"
| "Shutdown_progress Sh119 r = []"
| "Shutdown_progress Sh121 r = [SetShuttingDown]"
| "Shutdown_progress Sh123 r = [SetShuttingDown, SendRegistered False]"
| "Shutdown_progress Sh125 r = [SetShuttingDown, SendRegistered False, DoneGroupAdd]"
| "Shutdown_progress Sh127 r = [SetShuttingDown, SendRegistered False, DoneGroupAdd, SendDone]"
| "Shutdown_progress Sh129 r =
     [SetShuttingDown, SendRegistered False, DoneGroupAdd, SendDone, ActiveRequestsWait]"
| "Shutdown_progress Sh134 r =
     [SetShuttingDown, SendRegistered False, DoneGroupAdd, SendDone, ActiveRequestsWait,
      ManagerRemove] @ manager_log ''Failed to remove service: '' r"
| "Shutdown_progress Sh136 r =
     [SetShuttingDown, SendRegistered False, DoneGroupAdd, SendDone, ActiveRequestsWait,
      ManagerRemove] @ manager_log ''Failed to remove service: '' r @ [DelegateStopped]"
| "Shutdown_progress Sh137 r =
     [SetShuttingDown, SendRegistered False, DoneGroupAdd, SendDone, ActiveRequestsWait,
      ManagerRemove] @ manager_log ''Failed to remove service: '' r
      @ [DelegateStopped, DoneGroupDone]"

fun Start_progress :: "bool \<Rightarrow> start_pc \<Rightarrow> string option \<Rightarrow> action list" where
  "Start_progress reg St146 r = []"
| "Start_progress reg St155 r = []"
| "Start_progress reg St158 r = []"
| "Start_progress reg St160 r = [BindWaitWait]"
| "Start_progress reg St163 r = [BindWaitWait]"
| "Start_progress reg St169 r = [BindWaitWait]"
| "Start_progress reg St174 r = [BindWaitWait, ManagerAdd] @ manager_log ''Failed to add service: '' r"
| "Start_progress reg St175 r = [BindWaitWait, ManagerAdd] @ manager_log ''Failed to add service: '' r"
| "Start_progress reg St178 r =
     [BindWaitWait, ManagerAdd] @ manager_log ''Failed to add service: '' r
       @ (if reg then [SendRegistered True] else [])"
| "Start_progress reg St180 r =
     [BindWaitWait, ManagerAdd] @ manager_log ''Failed to add service: '' r
       @ (if reg then [SendRegistered True] else []) @ [DelegateStarted]"

fun progress :: "thread \<Rightarrow> string option \<Rightarrow> action list" where
  "progress (InStart reg pc) r = Start_progress reg pc r"
| "progress (InRegister Sending) r = []"
| "progress (InRegister Returned) r = [SendRegistered True]"
| "progress (InUnregister Sending) r = []"
| "progress (InUnregister Returned) r = [SendRegistered False]"
| "progress (InShutdown pc) r = Shutdown_progress pc r"

definition progress_inv :: "System \<Rightarrow> bool" where
  "progress_inv s \<longleftrightarrow>
     (\<forall>t. if t < length (threads s)
          then (\<exists>r. performed (Thread t) s = progress (threads s ! t) r)
          else performed (Thread t) s = [])
     \<and> InStart False St175 \<notin> set (threads s)"

text \<open>A step of the code of thread \<open>t\<close>: it moves the thread to \<open>th\<close> and adds the
  actions \<open>as\<close> to what that thread has done; no other thread is touched.\<close>

definition moves :: "nat \<Rightarrow> thread \<Rightarrow> action list \<Rightarrow> System \<Rightarrow> System \<Rightarrow> bool" where
  "moves t th as s s' \<longleftrightarrow>
     threads s' = (threads s)[t := th]
     \<and> (\<forall>t'. performed (Thread t') s' = performed (Thread t') s @ (if t' = t then as else []))"

text \<open>
  The requests in flight after a trace: those counted on \<^verbatim>\<open>activeRequests\<close> and
  not yet done.
\<close>

fun weight :: "action \<Rightarrow> int" where
  "weight ActiveRequestsAdd = 1"
| "weight ActiveRequestsDone = - 1"
| "weight a = 0"

definition in_flight :: "(who \<times> action) list \<Rightarrow> int" where
  "in_flight tr = sum_list (map (\<lambda>p. weight (snd p)) tr)"

text \<open>Every \<^verbatim>\<open>activeRequests.Wait()\<close> of a trace returned with \<open>n\<close> plus the
  requests of the trace before it at zero.\<close>

fun waits_ok :: "int \<Rightarrow> (who \<times> action) list \<Rightarrow> bool" where
  "waits_ok n [] = True"
| "waits_ok n (p # tr) =
     ((snd p = ActiveRequestsWait \<longrightarrow> n = 0) \<and> waits_ok (n + weight (snd p)) tr)"

definition requests_inv :: "System \<Rightarrow> bool" where
  "requests_inv s \<longleftrightarrow> in_flight (trace s) = int (activeRequests s) \<and> waits_ok 0 (trace s)"


text \<open>
  The operations of the goroutine that runs \<^verbatim>\<open>Shutdown()\<close>, bookkeeping and log
  lines left out, in the order of the amended claim: set the flag, send the unregister
  event to the actor, signal the actor, return from the wait for the requests in flight,
  remove the service from the directory, tell the delegate, release the wait group of
  \<^verbatim>\<open>Start\<close>. The second is the send of \<^verbatim>\<open>s.Unregister()\<close> only: what
  \<^verbatim>\<open>unregister()\<close> does (the directory's \<^verbatim>\<open>Unregister\<close>, the flag, the
  delegate's \<^verbatim>\<open>Unregistered\<close>) is done by the actor and is no part of this list.
\<close>

definition Shutdown_sequence :: "action list" where
  "Shutdown_sequence =
     [SetShuttingDown, SendRegistered False, SendDone, ActiveRequestsWait, ManagerRemove,
      DelegateStopped, DoneGroupDone]"

subsection \<open>Runs used as examples\<close>

text \<open>
  \<^verbatim>\<open>Start(true)\<close> on an address that binds, up to its return: the listener binds,
  the actor starts and registers the service.
\<close>

definition startup :: "choice list" where
  "startup =
     [Run 0 None, Run 0 None, Listen (Inl ''unused''), Listen (Inl ''unused''),
      Run 0 None, Run 0 None, Run 0 None, Run 0 None, Run 0 None,
      RecvRegistered 0, Handle (answers ''unused''), Run 0 None]"

text \<open>
  After the start a connection is accepted and served and a request begins; a goroutine
  calls \<^verbatim>\<open>Shutdown()\<close>, which waits at line 127 until the request has ended, and
  then runs to its end, the service manager answering \<^verbatim>\<open>gone\<close> to
  \<^verbatim>\<open>Remove\<close>.
\<close>

definition graceful :: "choice list" where
  "graceful =
     startup @
     [Listen (Inr (TCPConn 1 ''10.0.0.5:51000'')), RecvConnection, Handle (answers ''id-1''),
      RequestBegin, Call CallShutdown, Run 1 None, Run 1 None, RecvRegistered 1,
      Handle (answers ''unused''), Run 1 None, Run 1 None, Run 1 None, RecvDone,
      Handle (answers ''unused''), ActorReturn, Run 1 None, RequestEnd, Run 1 None,
      Run 1 (Some ''gone''), Run 1 None, Run 1 None]"

text \<open>
  After the start two goroutines call \<^verbatim>\<open>Shutdown()\<close> at the same time, say the
  signal watcher and the program itself: both read \<^verbatim>\<open>shuttingDown\<close> at line 115
  before either sets it at line 119, and both run to the end.
\<close>

definition racing :: "choice list" where
  "racing =
     startup @
     [Call CallShutdown, Call CallShutdown, Run 1 None, Run 2 None, Run 1 None, Run 2 None,
      RecvRegistered 1, Handle (answers ''unused''), RecvRegistered 2,
      Handle (answers ''unused''), Run 1 None, Run 2 None, Run 1 None, RecvDone, Run 2 None,
      Handle (answers ''unused''), ActorReturn,
      Run 1 None, Run 1 None, Run 1 None, Run 1 None, Drain,
      Run 2 None, Run 2 None, Run 2 None, Run 2 None]"


text \<open>
  After the start a request begins and does not end; a goroutine calls
  \<^verbatim>\<open>Shutdown()\<close> and is given every chance to run.
\<close>

definition stuck :: "choice list" where
  "stuck =
     startup @
     [RequestBegin, Call CallShutdown, Run 1 None, Run 1 None, RecvRegistered 1,
      Handle (answers ''unused''), Run 1 None, Run 1 None, RecvDone,
      Handle (answers ''unused''), ActorReturn, Run 1 None, Run 1 None, Run 1 None]"

text \<open>
  After the start a goroutine calls \<^verbatim>\<open>Shutdown()\<close> and runs to the end of the
  function as soon as the actor's \<^verbatim>\<open>select\<close> has received its unregister event;
  the actor handles that event only afterwards.
\<close>

definition early :: "choice list" where
  "early =
     startup @
     [Call CallShutdown, Run 1 None, Run 1 None, RecvRegistered 1,
      Run 1 None, Run 1 None, Run 1 None, Run 1 None, Run 1 None, Run 1 None]"

section \<open>Properties\<close>

subsection \<open>Each operation touches only its own fields\<close>

lemma emit_fields [simp]:
  "Registered (emit w as s) = Registered s"
  "ClientInfo (emit w as s) = ClientInfo s"
  "shuttingDown (emit w as s) = shuttingDown s"
  "activeRequests (emit w as s) = activeRequests s"
  "doneChan (emit w as s) = doneChan s"
  "doneGroup (emit w as s) = doneGroup s"
  "threads (emit w as s) = threads s"
  "actor (emit w as s) = actor s"
  "listener (emit w as s) = listener s"
  "drain (emit w as s) = drain s"
  "bindWait (emit w as s) = bindWait s"
  "bind_err (emit w as s) = bind_err s"
  "crashed (emit w as s) = crashed s"
  "trace (emit w as s) = trace s @ map (Pair w) as"
  "serviceInfoCopies (emit w as s) = serviceInfoCopies s"
  by (simp_all add: emit_def)

lemma crash_fields [simp]:
  "Registered (crash e s) = Registered s"
  "ClientInfo (crash e s) = ClientInfo s"
  "shuttingDown (crash e s) = shuttingDown s"
  "activeRequests (crash e s) = activeRequests s"
  "doneChan (crash e s) = doneChan s"
  "doneGroup (crash e s) = doneGroup s"
  "threads (crash e s) = threads s"
  "actor (crash e s) = actor s"
  "listener (crash e s) = listener s"
  "drain (crash e s) = drain s"
  "bindWait (crash e s) = bindWait s"
  "bind_err (crash e s) = bind_err s"
  "crashed (crash e s) = True"
  "trace (crash e s) = trace s @ [(Process, Panic e)]"
  "serviceInfoCopies (crash e s) = serviceInfoCopies s"
  by (simp_all add: crash_def)

lemma set_thread_fields [simp]:
  "Registered (set_thread t th s) = Registered s"
  "ClientInfo (set_thread t th s) = ClientInfo s"
  "shuttingDown (set_thread t th s) = shuttingDown s"
  "activeRequests (set_thread t th s) = activeRequests s"
  "doneChan (set_thread t th s) = doneChan s"
  "doneGroup (set_thread t th s) = doneGroup s"
  "threads (set_thread t th s) = (threads s)[t := th]"
  "actor (set_thread t th s) = actor s"
  "listener (set_thread t th s) = listener s"
  "drain (set_thread t th s) = drain s"
  "bindWait (set_thread t th s) = bindWait s"
  "bind_err (set_thread t th s) = bind_err s"
  "crashed (set_thread t th s) = crashed s"
  "trace (set_thread t th s) = trace s"
  "serviceInfoCopies (set_thread t th s) = serviceInfoCopies s"
  by (simp_all add: set_thread_def)

lemma Shutdown_Registered [simp]: "Registered (Shutdown t pc r s) = Registered s"
  by (cases pc) (simp_all split: option.splits nat.splits)

lemma Start_Registered [simp]: "Registered (Start t reg pc r s) = Registered s"
  by (cases pc) simp_all

lemma listen_Registered [simp]: "Registered (listen l a s) = Registered s"
  by (cases l) (simp_all split: option.splits nat.splits sum.splits)

lemma run_Registered [simp]: "Registered (run t r s) = Registered s"
  by (simp add: run_def split: thread.splits)

lemma step_keeps_Registered:
  "(\<forall>e. c \<noteq> Handle e) \<Longrightarrow> Registered (step s c) = Registered s"
  by (cases c)
     (simp_all add: step_def recv_registered_def recv_connection_def recv_done_def actor_return_def
        drain_recv_def request_begin_def request_end_def
        split: option.splits list.splits nat.splits listener_state.splits)

lemma mux_select_service_fields [simp]:
  "shuttingDown (fst (snd (mux_select m e s))) = shuttingDown s"
  "activeRequests (fst (snd (mux_select m e s))) = activeRequests s"
  "doneChan (fst (snd (mux_select m e s))) = doneChan s"
  "doneGroup (fst (snd (mux_select m e s))) = doneGroup s"
  by (cases m; simp add: mux_connection_def Let_def register_def unregister_def split: option.splits)+

lemma mux_select_system_fields [simp]:
  fixes s :: System
  shows
  "threads (fst (snd (mux_select m e s))) = threads s"
  "actor (fst (snd (mux_select m e s))) = actor s"
  "listener (fst (snd (mux_select m e s))) = listener s"
  "drain (fst (snd (mux_select m e s))) = drain s"
  "bindWait (fst (snd (mux_select m e s))) = bindWait s"
  "bind_err (fst (snd (mux_select m e s))) = bind_err s"
  "crashed (fst (snd (mux_select m e s))) = crashed s"
  "trace (fst (snd (mux_select m e s))) = trace s"
  "serviceInfoCopies (fst (snd (mux_select m e s))) = serviceInfoCopies s"
  by (cases m; simp add: mux_connection_def Let_def register_def unregister_def split: option.splits)+

lemma Shutdown_bind_err [simp]: "bind_err (Shutdown t pc r s) = bind_err s"
  by (cases pc) (simp_all split: option.splits nat.splits)

lemma Start_bind_err [simp]: "bind_err (Start t reg pc r s) = bind_err s"
  by (cases pc) simp_all

lemma listen_bind_err [simp]: "bind_err (listen l a s) = bind_err s"
  by (cases l) (simp_all split: option.splits nat.splits sum.splits)

lemma run_bind_err [simp]: "bind_err (run t r s) = bind_err s"
  by (simp add: run_def split: thread.splits)

lemma handle_bind_err [simp]: "bind_err (handle e s) = bind_err s"
  by (simp add: handle_def split: actor_state.splits prod.splits)
     (metis fst_conv snd_conv mux_select_system_fields(6))

lemma step_bind_err [simp]: "bind_err (step s c) = bind_err s"
  by (cases c)
     (simp_all add: step_def recv_registered_def recv_connection_def recv_done_def actor_return_def
        drain_recv_def request_begin_def request_end_def
        split: option.splits list.splits nat.splits listener_state.splits)

lemma exec_bind_err [simp]: "bind_err (exec s cs) = bind_err s"
  by (induction cs arbitrary: s) simp_all

subsection \<open>The actor, one message after the other\<close>

lemma mux_select_toggle:
  "mux_select (RegisteredMsg b) e s = (as, s', l) \<Longrightarrow> Registered s' = b \<and> \<not> l"
  by (auto simp: register_def unregister_def split: if_splits)

lemma mux_select_conn_flag:
  "mux_select (ConnMsg c) e s = (as, s', l) \<Longrightarrow> Registered s' = Registered s \<and> \<not> l"
  by (auto simp: mux_connection_def Let_def split: if_splits option.splits)

lemma mux_flag:
  "mux evs s = (as, s', False) \<Longrightarrow> Registered s' = last_toggle (Registered s) evs"
proof (induction evs arbitrary: s as)
  case Nil
  then show ?case by (simp add: last_toggle_def toggles_def)
next
  case (Cons ev evs)
  obtain m e where ev: "ev = (m, e)" by (cases ev)
  obtain a1 s1 l1 where sel: "mux_select m e s = (a1, s1, l1)" by (metis prod_cases3)
  from Cons.prems ev sel have l1: "\<not> l1" by (auto split: prod.splits)
  obtain a2 where rest: "mux evs s1 = (a2, s', False)"
    using Cons.prems ev sel l1 by (auto split: prod.splits)
  have ih: "Registered s' = last_toggle (Registered s1) evs" using Cons.IH[OF rest] .
  show ?case
  proof (cases m)
    case (ConnMsg c)
    with sel have "Registered s1 = Registered s" using mux_select_conn_flag by blast
    with ih ev ConnMsg show ?thesis by (simp add: last_toggle_def toggles_def)
  next
    case (RegisteredMsg b)
    with sel have "Registered s1 = b" using mux_select_toggle by blast
    with ih ev RegisteredMsg show ?thesis by (simp add: last_toggle_def toggles_def)
  next
    case DoneMsg
    with sel l1 show ?thesis by simp
  qed
qed

lemma mux_append:
  "mux pre s = (as, s', False) \<Longrightarrow>
   mux (pre @ evs) s = (case mux evs s' of (bs, s'', l) \<Rightarrow> (as @ bs, s'', l))"
proof (induction pre arbitrary: s as)
  case Nil
  then show ?case by (auto split: prod.splits)
next
  case (Cons ev pre)
  obtain m e where ev: "ev = (m, e)" by (cases ev)
  obtain a1 s1 l1 where sel: "mux_select m e s = (a1, s1, l1)" by (metis prod_cases3)
  from Cons.prems ev sel have l1: "\<not> l1" by (auto split: prod.splits)
  obtain a2 where rest: "mux pre s1 = (a2, s', False)" and as: "as = a1 @ a2"
    using Cons.prems ev sel l1 by (auto split: prod.splits)
  show ?case using Cons.IH[OF rest] ev sel l1 as by (auto split: prod.splits)
qed

lemma mux_connection_first:
  "\<exists>rest. fst (mux_connection conn e s) =
           Encode conn (ServiceHandshake (Registered s) (uuid e)) # rest"
  by (auto simp: mux_connection_def Let_def split: option.splits)

subsection \<open>The flag a handshake shows\<close>

text \<open>
  The part of claim C1 about the handshake. Let the actor have handled the messages
  \<open>pre\<close> without leaving its loop. The server handshake of the connection it takes
  next carries, as \<^verbatim>\<open>Registered\<close>, the value of the last \<^verbatim>\<open>register()\<close> or
  \<^verbatim>\<open>unregister()\<close> event among \<open>pre\<close> (the flag at the start when there is
  none): the handshake is encoded after all of \<open>pre\<close> has been handled, and before
  anything of \<open>post\<close>. And no step of the system other than the actor handling a
  message changes the flag.
\<close>

theorem handshake_observes_last_toggle:
  "(mux pre s = (as, s', False) \<longrightarrow>
      (\<exists>rest s'' l.
         mux (pre @ (ConnMsg conn, e) # post) s =
           (as @ Encode conn (ServiceHandshake (last_toggle (Registered s) pre) (uuid e)) # rest,
            s'', l)))
   \<and> ((\<forall>e'. c \<noteq> Handle e') \<longrightarrow> Registered (step sys c) = Registered sys)"
proof (intro conjI impI)
  assume pre: "mux pre s = (as, s', False)"
  have flag: "Registered s' = last_toggle (Registered s) pre" using mux_flag[OF pre] .
  obtain rest where first:
    "fst (mux_connection conn e s') = Encode conn (ServiceHandshake (Registered s') (uuid e)) # rest"
    using mux_connection_first by blast
  obtain a1 s1 where mc: "mux_connection conn e s' = (a1, s1)" by (cases "mux_connection conn e s'")
  obtain a2 s2 l2 where rst: "mux post s1 = (a2, s2, l2)" by (metis prod_cases3)
  have "mux (pre @ (ConnMsg conn, e) # post) s = (as @ a1 @ a2, s2, l2)"
    using mux_append[OF pre, of "(ConnMsg conn, e) # post"] mc rst by simp
  with first mc flag show "\<exists>rest s'' l.
         mux (pre @ (ConnMsg conn, e) # post) s =
           (as @ Encode conn (ServiceHandshake (last_toggle (Registered s) pre) (uuid e)) # rest,
            s'', l)" by simp
next
  assume "\<forall>e'. c \<noteq> Handle e'"
  then show "Registered (step sys c) = Registered sys" by (rule step_keeps_Registered)
qed

theorem handshake_observes_last_toggle_witness:
  "mux [(RegisteredMsg True, answers ''a''), (RegisteredMsg False, answers ''a''),
        (RegisteredMsg True, answers ''a'')] CreateService =
     ([ManagerRegister, Log INFO ''ServiceRegistered'', DelegateRegistered,
       ManagerUnregister, Log INFO ''ServiceUnregistered'', DelegateUnregistered,
       ManagerRegister, Log INFO ''ServiceRegistered'', DelegateRegistered],
      CreateService\<lparr>Registered := True\<rparr>, False)
   \<and> (\<exists>rest s'' l.
         mux ([(RegisteredMsg True, answers ''a''), (RegisteredMsg False, answers ''a''),
               (RegisteredMsg True, answers ''a'')]
              @ (ConnMsg (TCPConn 7 ''10.0.0.9:4000''), answers ''id-7'') # []) CreateService =
           ([ManagerRegister, Log INFO ''ServiceRegistered'', DelegateRegistered,
             ManagerUnregister, Log INFO ''ServiceUnregistered'', DelegateUnregistered,
             ManagerRegister, Log INFO ''ServiceRegistered'', DelegateRegistered]
            @ Encode (TCPConn 7 ''10.0.0.9:4000'') (ServiceHandshake True ''id-7'') # rest, s'', l))
   \<and> last_toggle (Registered CreateService)
        [(RegisteredMsg True, answers ''a''), (RegisteredMsg False, answers ''a''),
         (RegisteredMsg True, answers ''a'')] = True
   \<and> Registered (step (init False None) (Call CallShutdown)) = Registered (init False None)"
proof -
  have run: "mux [(RegisteredMsg True, answers ''a''), (RegisteredMsg False, answers ''a''),
        (RegisteredMsg True, answers ''a'')] CreateService =
     ([ManagerRegister, Log INFO ''ServiceRegistered'', DelegateRegistered,
       ManagerUnregister, Log INFO ''ServiceUnregistered'', DelegateUnregistered,
       ManagerRegister, Log INFO ''ServiceRegistered'', DelegateRegistered],
      CreateService\<lparr>Registered := True\<rparr>, False)"
    by (simp add: register_def unregister_def CreateService_def answers_def)
  have lt: "last_toggle (Registered CreateService)
        [(RegisteredMsg True, answers ''a''), (RegisteredMsg False, answers ''a''),
         (RegisteredMsg True, answers ''a'')] = True"
    by (simp add: last_toggle_def toggles_def)
  have u: "uuid (answers ''id-7'') = ''id-7''" by (simp add: answers_def)
  have w: "Registered (step (init False None) (Call CallShutdown)) = Registered (init False None)"
    using handshake_observes_last_toggle [THEN conjunct2, of "Call CallShutdown" "init False None"]
    by (simp add: step_def)
  have h: "\<exists>rest s'' l.
         mux ([(RegisteredMsg True, answers ''a''), (RegisteredMsg False, answers ''a''),
               (RegisteredMsg True, answers ''a'')]
              @ (ConnMsg (TCPConn 7 ''10.0.0.9:4000''), answers ''id-7'') # []) CreateService =
           ([ManagerRegister, Log INFO ''ServiceRegistered'', DelegateRegistered,
             ManagerUnregister, Log INFO ''ServiceUnregistered'', DelegateUnregistered,
             ManagerRegister, Log INFO ''ServiceRegistered'', DelegateRegistered]
            @ Encode (TCPConn 7 ''10.0.0.9:4000'') (ServiceHandshake True ''id-7'') # rest, s'', l)"
    using handshake_observes_last_toggle [THEN conjunct1, rule_format, OF run,
        of "TCPConn 7 ''10.0.0.9:4000''" "answers ''id-7''" "[]"]
    unfolding lt u .
  from run h lt w show ?thesis by (intro conjI)
qed

text \<open>
  Outside the actor the flag is read in one way only: a step of any other goroutine does
  the same whatever the flag is, except for the value it puts into a copy of
  \<^verbatim>\<open>s.ServiceInfo\<close>.
\<close>

lemma Shutdown_reads_flag_for_copy:
  "(Shutdown t pc r (s\<lparr>Registered := b\<rparr>))\<lparr>serviceInfoCopies := x\<rparr> =
   (Shutdown t pc r s)\<lparr>Registered := b, serviceInfoCopies := x\<rparr>"
  by (cases pc)
     (simp_all add: emit_def set_thread_def crash_def split: option.splits nat.splits)

lemma Start_reads_flag_for_copy:
  "(Start t reg pc r (s\<lparr>Registered := b\<rparr>))\<lparr>serviceInfoCopies := x\<rparr> =
   (Start t reg pc r s)\<lparr>Registered := b, serviceInfoCopies := x\<rparr>"
  by (cases pc) (simp_all add: emit_def set_thread_def crash_def)

lemma listen_reads_no_flag:
  "listen l a (s\<lparr>Registered := b\<rparr>) = (listen l a s)\<lparr>Registered := b\<rparr>"
  by (cases l)
     (simp_all add: emit_def crash_def split: option.splits nat.splits sum.splits)

lemma flag_read_only_for_copies:
  assumes "\<forall>e. c \<noteq> Handle e"
  shows "(step (s\<lparr>Registered := b\<rparr>) c)\<lparr>serviceInfoCopies := x\<rparr> =
         (step s c)\<lparr>Registered := b, serviceInfoCopies := x\<rparr>"
proof (cases c)
  case (Run t r)
  then show ?thesis using Shutdown_reads_flag_for_copy Start_reads_flag_for_copy
    by (simp add: step_def run_def split: thread.splits)
next
  case (Listen a)
  then show ?thesis using listen_reads_no_flag by (simp add: step_def)
next
  case (Handle e)
  with assms show ?thesis by simp
qed (simp_all add: step_def recv_registered_def recv_connection_def recv_done_def
       actor_return_def drain_recv_def request_begin_def request_end_def emit_def
       set_thread_def crash_def
       split: option.splits nat.splits list.splits listener_state.splits prod.splits)

text \<open>
  Claim C1 says that the flag is read and written only from within the actor loop, as the
  comment on \<^verbatim>\<open>mux\<close> asks of all thread-sensitive data. The code reads it outside:
  \<^verbatim>\<open>Start\<close> at line 169 and \<^verbatim>\<open>Shutdown\<close> at line 129 copy
  \<^verbatim>\<open>s.ServiceInfo\<close>, the flag with it, in the caller's goroutine. In the run
  \<open>early\<close>, an ordinary \<^verbatim>\<open>Start(true)\<close> followed by one \<^verbatim>\<open>Shutdown()\<close>,
  the goroutine in \<^verbatim>\<open>Shutdown\<close> reads \<^verbatim>\<open>true\<close> for the directory's
  \<^verbatim>\<open>Remove\<close> while the actor holds the unregister event and is about to write
  \<^verbatim>\<open>false\<close> (line 108); in the run \<open>graceful\<close>, where the actor was faster, the
  same statement reads \<^verbatim>\<open>false\<close>.
\<close>

theorem ServiceInfo_copy_reads_flag_outside_actor:
  "serviceInfoCopies (exec (init True None) early) = [(Thread 0, False), (Thread 1, True)]
   \<and> threads (exec (init True None) early) = [InStart True St180, InShutdown Sh137]
   \<and> actor (exec (init True None) early) = Handling (RegisteredMsg False)
   \<and> Registered (exec (init True None) early)
   \<and> \<not> Registered (step (exec (init True None) early) (Handle (answers ''unused'')))
   \<and> serviceInfoCopies (exec (init True None) graceful) = [(Thread 0, False), (Thread 1, False)]"
  by code_simp

lemma mux_connection_ClientInfo:
  "ClientInfo (snd (mux_connection conn e s)) =
     (ClientInfo s)(uuid e \<mapsto> \<lparr>Address = RemoteAddr conn\<rparr>)"
  by (simp add: mux_connection_def Let_def split: option.splits)

lemma mux_select_dom:
  "dom (ClientInfo s) \<subseteq> dom (ClientInfo (fst (snd (mux_select m e s))))"
  by (cases m)
     (auto simp: mux_connection_def Let_def register_def unregister_def split: option.splits)

lemma mux_dom: "dom (ClientInfo s) \<subseteq> dom (ClientInfo (fst (snd (mux evs s))))"
proof (induction evs arbitrary: s)
  case Nil
  then show ?case by simp
next
  case (Cons ev evs)
  obtain m e where ev: "ev = (m, e)" by (cases ev)
  obtain a1 s1 l1 where sel: "mux_select m e s = (a1, s1, l1)" by (metis prod_cases3)
  have d1: "dom (ClientInfo s) \<subseteq> dom (ClientInfo s1)" using mux_select_dom[of s m e] sel by simp
  show ?case
  proof (cases l1)
    case True
    with ev sel d1 show ?thesis by simp
  next
    case False
    obtain a2 s2 l2 where rest: "mux evs s1 = (a2, s2, l2)" by (metis prod_cases3)
    have "dom (ClientInfo s1) \<subseteq> dom (ClientInfo (fst (snd (mux evs s1))))" by (rule Cons.IH)
    with rest have "dom (ClientInfo s1) \<subseteq> dom (ClientInfo s2)" by simp
    moreover have "mux (ev # evs) s = (a1 @ a2, s2, l2)" using ev sel False rest by simp
    ultimately show ?thesis using d1 by auto
  qed
qed

lemma mux_select_Close:
  "Close c \<in> set (fst (mux_select m e s)) \<longleftrightarrow>
     m = ConnMsg c \<and> encode_err e = None \<and> \<not> Registered s"
  by (cases m)
     (auto simp: mux_connection_def Let_def register_def unregister_def split: option.splits)

lemma mux_Close:
  "Close c \<in> set (fst (mux evs s)) \<Longrightarrow> \<exists>e. (ConnMsg c, e) \<in> set evs"
proof (induction evs arbitrary: s)
  case Nil
  then show ?case by simp
next
  case (Cons ev evs)
  obtain m e where ev: "ev = (m, e)" by (cases ev)
  obtain a1 s1 l1 where sel: "mux_select m e s = (a1, s1, l1)" by (metis prod_cases3)
  show ?case
  proof (cases "Close c \<in> set a1")
    case True
    then have "m = ConnMsg c" using mux_select_Close[of c m e s] sel by simp
    with ev show ?thesis by auto
  next
    case False
    with Cons.prems ev sel have "Close c \<in> set (fst (mux evs s1))"
      by (cases l1) (auto split: prod.splits)
    then obtain e' where "(ConnMsg c, e') \<in> set evs" using Cons.IH by blast
    then show ?thesis by auto
  qed
qed

subsection \<open>Registration\<close>

text \<open>
  Claim C4. \<^verbatim>\<open>register()\<close> does nothing when the service is registered. Otherwise
  it calls the service manager, sets \<^verbatim>\<open>Registered\<close> and calls the delegate's
  \<^verbatim>\<open>Registered\<close>, whether the service manager answered an error or not: the error
  adds one line to the log and changes nothing else. \<^verbatim>\<open>unregister()\<close> is the same
  for the other direction.
\<close>

theorem register_unregister_optimistic:
  "(Registered s \<longrightarrow> register err s = ([], s))
   \<and> (\<not> Registered s \<longrightarrow>
        register None s =
          ([ManagerRegister, Log INFO ''ServiceRegistered'', DelegateRegistered],
           s\<lparr>Registered := True\<rparr>)
        \<and> register (Some e) s =
          ([ManagerRegister, Log ERROR (''Failed to register service: '' @ e),
            Log INFO ''ServiceRegistered'', DelegateRegistered],
           s\<lparr>Registered := True\<rparr>))
   \<and> (\<not> Registered s \<longrightarrow> unregister err s = ([], s))
   \<and> (Registered s \<longrightarrow>
        unregister None s =
          ([ManagerUnregister, Log INFO ''ServiceUnregistered'', DelegateUnregistered],
           s\<lparr>Registered := False\<rparr>)
        \<and> unregister (Some e) s =
          ([ManagerUnregister, Log ERROR (''Failed to unregister service: '' @ e),
            Log INFO ''ServiceUnregistered'', DelegateUnregistered],
           s\<lparr>Registered := False\<rparr>))"
  by (simp add: register_def unregister_def)

theorem register_unregister_optimistic_witness:
  "register (Some ''connection refused'') CreateService =
     ([ManagerRegister, Log ERROR ''Failed to register service: connection refused'',
       Log INFO ''ServiceRegistered'', DelegateRegistered],
      CreateService\<lparr>Registered := True\<rparr>)
   \<and> unregister (Some ''connection refused'') CreateService = ([], CreateService)
   \<and> register (Some ''connection refused'') (CreateService\<lparr>Registered := True\<rparr>) =
       ([], CreateService\<lparr>Registered := True\<rparr>)
   \<and> unregister (Some ''connection refused'') (CreateService\<lparr>Registered := True\<rparr>) =
       ([ManagerUnregister, Log ERROR ''Failed to unregister service: connection refused'',
         Log INFO ''ServiceUnregistered'', DelegateUnregistered],
        CreateService\<lparr>Registered := True, Registered := False\<rparr>)"
  using register_unregister_optimistic
          [of CreateService "Some ''connection refused''" "''connection refused''"]
        register_unregister_optimistic
          [of "CreateService\<lparr>Registered := True\<rparr>" "Some ''connection refused''"
              "''connection refused''"]
  by (simp add: CreateService_def)

subsection \<open>The handshake of an accepted connection\<close>

text \<open>
  Claim C2 says that every connection accepted while the flag is false is closed after the
  server handshake. It is not when the encoder fails: a fresh service, not registered,
  whose \<^verbatim>\<open>Encode\<close> answers \<^verbatim>\<open>broken pipe\<close>, logs the error and leaves the
  \<^verbatim>\<open>select\<close> at line 238, before the \<^verbatim>\<open>conn.Close()\<close> of line 241.
\<close>

theorem unregistered_connection_no_close_counterexample:
  "\<not> Registered CreateService
   \<and> mux_connection (TCPConn 3 ''10.0.0.5:51000'')
        (answers ''id-3''\<lparr>encode_err := Some ''broken pipe''\<rparr>) CreateService =
       ([Encode (TCPConn 3 ''10.0.0.5:51000'') (ServiceHandshake False ''id-3''),
         Log ERROR ''broken pipe''],
        CreateService\<lparr>ClientInfo := [''id-3'' \<mapsto> \<lparr>Address = ''10.0.0.5:51000''\<rparr>]\<rparr>)
   \<and> Close (TCPConn 3 ''10.0.0.5:51000'')
       \<notin> set (fst (mux_connection (TCPConn 3 ''10.0.0.5:51000'')
                       (answers ''id-3''\<lparr>encode_err := Some ''broken pipe''\<rparr>) CreateService))"
  by (simp add: mux_connection_def Let_def CreateService_def answers_def)

text \<open>
  Claim C2, amended. For a connection accepted while the flag is false, the actor encodes
  one server handshake, with \<^verbatim>\<open>Registered\<close> false and the identifier just
  generated; it starts no serving goroutine and decodes no client handshake; and when the
  encoder reports no error it closes the connection, and does nothing else.
\<close>

theorem unregistered_connection_rejected:
  "\<not> Registered s \<longrightarrow>
     (\<exists>rest. fst (mux_connection conn e s) =
               Encode conn (ServiceHandshake False (uuid e)) # rest
             \<and> (\<forall>a \<in> set rest. \<forall>c h. a \<noteq> Encode c h))
     \<and> (\<forall>c. ServeCodec c \<notin> set (fst (mux_connection conn e s)))
     \<and> (\<forall>c. Decode c \<notin> set (fst (mux_connection conn e s)))
     \<and> (encode_err e = None \<longrightarrow>
          fst (mux_connection conn e s) =
            [Encode conn (ServiceHandshake False (uuid e)), Close conn])"
  by (auto simp: mux_connection_def Let_def split: option.splits)

theorem unregistered_connection_rejected_witness:
  "\<not> Registered CreateService
   \<and> (\<exists>rest. fst (mux_connection (TCPConn 3 ''10.0.0.5:51000'') (answers ''id-3'') CreateService) =
               Encode (TCPConn 3 ''10.0.0.5:51000'') (ServiceHandshake False ''id-3'') # rest)
   \<and> fst (mux_connection (TCPConn 3 ''10.0.0.5:51000'') (answers ''id-3'') CreateService) =
            [Encode (TCPConn 3 ''10.0.0.5:51000'') (ServiceHandshake False ''id-3''),
             Close (TCPConn 3 ''10.0.0.5:51000'')]
   \<and> ServeCodec (TCPConn 3 ''10.0.0.5:51000'')
       \<notin> set (fst (mux_connection (TCPConn 3 ''10.0.0.5:51000'') (answers ''id-3'') CreateService))"
proof -
  have r: "\<not> Registered CreateService" by (simp add: CreateService_def)
  have u: "uuid (answers ''id-3'') = ''id-3''" "encode_err (answers ''id-3'') = None"
    by (simp_all add: answers_def)
  from unregistered_connection_rejected
         [rule_format, OF r, of "TCPConn 3 ''10.0.0.5:51000''" "answers ''id-3''"] r u
  show ?thesis by auto
qed




text \<open>
  Claim C10. When the encoder fails, or when the service is registered and the decoder
  fails, the actor logs the error and goes on with its loop, without closing the
  connection; the entry it put into the client map is there, and no later message removes
  an entry. The actor closes no connection it is not handed again, and the turn of the
  loop closes a connection exactly when the message is that connection, the encoder
  succeeded and the flag is false.
\<close>

theorem handshake_error_leaves_connection_open:
  "(encode_err e = Some err \<longrightarrow>
      mux_select (ConnMsg conn) e s =
        ([Encode conn (ServiceHandshake (Registered s) (uuid e)), Log ERROR err],
         s\<lparr>ClientInfo := (ClientInfo s)(uuid e \<mapsto> \<lparr>Address = RemoteAddr conn\<rparr>)\<rparr>, False))
   \<and> (Registered s \<and> encode_err e = None \<and> decode_err e = Some err \<longrightarrow>
      mux_select (ConnMsg conn) e s =
        ([Encode conn (ServiceHandshake True (uuid e)), Decode conn,
          Log ERROR (''Error calling bsonrpc.NewDecoder: '' @ err)],
         s\<lparr>ClientInfo := (ClientInfo s)(uuid e \<mapsto> \<lparr>Address = RemoteAddr conn\<rparr>)\<rparr>, False))
   \<and> getClientInfo (fst (snd (mux_select (ConnMsg conn) e s))) (uuid e) =
       Some \<lparr>Address = RemoteAddr conn\<rparr>
   \<and> (getClientInfo s' k \<noteq> None \<longrightarrow> getClientInfo (fst (snd (mux evs s'))) k \<noteq> None)
   \<and> ((\<forall>ev \<in> set evs. fst ev \<noteq> ConnMsg conn) \<longrightarrow> Close conn \<notin> set (fst (mux evs s')))
   \<and> (Close c \<in> set (fst (mux_select m e s)) \<longleftrightarrow>
        m = ConnMsg c \<and> encode_err e = None \<and> \<not> Registered s)"
proof (intro conjI impI)
  show "getClientInfo (fst (snd (mux_select (ConnMsg conn) e s))) (uuid e) =
       Some \<lparr>Address = RemoteAddr conn\<rparr>"
    using mux_connection_ClientInfo[of conn e s]
    by (cases "mux_connection conn e s") (simp add: getClientInfo_def)
next
  assume "getClientInfo s' k \<noteq> None"
  then have "k \<in> dom (ClientInfo s')" by (auto simp: getClientInfo_def)
  then have "k \<in> dom (ClientInfo (fst (snd (mux evs s'))))" using mux_dom by blast
  then show "getClientInfo (fst (snd (mux evs s'))) k \<noteq> None" by (auto simp: getClientInfo_def)
next
  assume a: "\<forall>ev \<in> set evs. fst ev \<noteq> ConnMsg conn"
  show "Close conn \<notin> set (fst (mux evs s'))"
  proof
    assume "Close conn \<in> set (fst (mux evs s'))"
    then obtain e' where "(ConnMsg conn, e') \<in> set evs" using mux_Close by blast
    with a show False by fastforce
  qed
next
  show "Close c \<in> set (fst (mux_select m e s)) \<longleftrightarrow>
        m = ConnMsg c \<and> encode_err e = None \<and> \<not> Registered s"
    by (rule mux_select_Close)
qed (auto simp: mux_connection_def Let_def)

theorem handshake_error_leaves_connection_open_witness:
  "mux_select (ConnMsg (TCPConn 5 ''10.0.0.7:53000''))
     (answers ''id-5''\<lparr>encode_err := Some ''broken pipe''\<rparr>) CreateService =
     ([Encode (TCPConn 5 ''10.0.0.7:53000'') (ServiceHandshake False ''id-5''),
       Log ERROR ''broken pipe''],
      CreateService\<lparr>ClientInfo := [''id-5'' \<mapsto> \<lparr>Address = ''10.0.0.7:53000''\<rparr>]\<rparr>, False)
   \<and> mux_select (ConnMsg (TCPConn 5 ''10.0.0.7:53000''))
     (answers ''id-5''\<lparr>decode_err := Some ''EOF''\<rparr>) (CreateService\<lparr>Registered := True\<rparr>) =
     ([Encode (TCPConn 5 ''10.0.0.7:53000'') (ServiceHandshake True ''id-5''),
       Decode (TCPConn 5 ''10.0.0.7:53000''),
       Log ERROR ''Error calling bsonrpc.NewDecoder: EOF''],
      CreateService\<lparr>Registered := True,
                     ClientInfo := [''id-5'' \<mapsto> \<lparr>Address = ''10.0.0.7:53000''\<rparr>]\<rparr>, False)
   \<and> getClientInfo
        (fst (snd (mux [(RegisteredMsg False, answers ''x''),
                        (ConnMsg (TCPConn 6 ''10.0.0.8:54000''), answers ''id-6'')]
           (CreateService\<lparr>Registered := True,
                          ClientInfo := [''id-5'' \<mapsto> \<lparr>Address = ''10.0.0.7:53000''\<rparr>]\<rparr>))))
        ''id-5'' \<noteq> None
   \<and> Close (TCPConn 5 ''10.0.0.7:53000'')
       \<notin> set (fst (mux [(RegisteredMsg False, answers ''x''),
                         (ConnMsg (TCPConn 6 ''10.0.0.8:54000''), answers ''id-6'')]
           (CreateService\<lparr>Registered := True,
                          ClientInfo := [''id-5'' \<mapsto> \<lparr>Address = ''10.0.0.7:53000''\<rparr>]\<rparr>)))"
proof -
  have k: "getClientInfo (CreateService\<lparr>Registered := True,
                          ClientInfo := [''id-5'' \<mapsto> \<lparr>Address = ''10.0.0.7:53000''\<rparr>]\<rparr>)
             ''id-5'' \<noteq> None"
    by (simp add: getClientInfo_def)
  have d: "\<forall>ev \<in> set [(RegisteredMsg False, answers ''x''),
                        (ConnMsg (TCPConn 6 ''10.0.0.8:54000''), answers ''id-6'')].
             fst ev \<noteq> ConnMsg (TCPConn 5 ''10.0.0.7:53000'')"
    by simp
  note enc = handshake_error_leaves_connection_open
    [of "answers ''id-5''\<lparr>encode_err := Some ''broken pipe''\<rparr>" "''broken pipe''"
        "TCPConn 5 ''10.0.0.7:53000''" CreateService]
  note dec = handshake_error_leaves_connection_open
    [of "answers ''id-5''\<lparr>decode_err := Some ''EOF''\<rparr>" "''EOF''"
        "TCPConn 5 ''10.0.0.7:53000''" "CreateService\<lparr>Registered := True\<rparr>"
        "CreateService\<lparr>Registered := True,
                          ClientInfo := [''id-5'' \<mapsto> \<lparr>Address = ''10.0.0.7:53000''\<rparr>]\<rparr>"
        "''id-5''"
        "[(RegisteredMsg False, answers ''x''),
          (ConnMsg (TCPConn 6 ''10.0.0.8:54000''), answers ''id-6'')]"]
  have a: "mux_select (ConnMsg (TCPConn 5 ''10.0.0.7:53000''))
     (answers ''id-5''\<lparr>encode_err := Some ''broken pipe''\<rparr>) CreateService =
     ([Encode (TCPConn 5 ''10.0.0.7:53000'') (ServiceHandshake False ''id-5''),
       Log ERROR ''broken pipe''],
      CreateService\<lparr>ClientInfo := [''id-5'' \<mapsto> \<lparr>Address = ''10.0.0.7:53000''\<rparr>]\<rparr>, False)"
    using enc by (simp add: answers_def CreateService_def mux_connection_def Let_def)
  have b: "mux_select (ConnMsg (TCPConn 5 ''10.0.0.7:53000''))
     (answers ''id-5''\<lparr>decode_err := Some ''EOF''\<rparr>) (CreateService\<lparr>Registered := True\<rparr>) =
     ([Encode (TCPConn 5 ''10.0.0.7:53000'') (ServiceHandshake True ''id-5''),
       Decode (TCPConn 5 ''10.0.0.7:53000''),
       Log ERROR ''Error calling bsonrpc.NewDecoder: EOF''],
      CreateService\<lparr>Registered := True,
                     ClientInfo := [''id-5'' \<mapsto> \<lparr>Address = ''10.0.0.7:53000''\<rparr>]\<rparr>, False)"
    using dec by (simp add: answers_def CreateService_def mux_connection_def Let_def)
  from dec k d a b show ?thesis by blast
qed

subsection \<open>When the address cannot be bound\<close>

lemma exec_append: "exec s (cs @ ds) = exec (exec s cs) ds"
  by (induction cs arbitrary: s) simp_all

lemma before_bind_mono: "before_bind bw th \<Longrightarrow> before_bind 1 th"
  by (cases th) auto

lemma set_update_all: "\<forall>x \<in> set xs. P x \<Longrightarrow> P y \<Longrightarrow> \<forall>x \<in> set (xs[t := y]). P x"
  by (metis insert_iff set_update_subset_insert subsetD)

lemma unbound_init: "unbound (init reg (Some e))"
  by (simp add: unbound_def init_def)

lemma unbound_Start:
  assumes "unbound s" "t < length (threads s)" "threads s ! t = InStart reg pc"
  shows "unbound (Start t reg pc r s)"
proof -
  have mem: "InStart reg pc \<in> set (threads s)" using assms(2,3) by (metis nth_mem)
  then have bb: "before_bind (bindWait s) (InStart reg pc)" using assms(1) unfolding unbound_def by blast
  show ?thesis
  proof (cases pc)
    case St146
    have "\<forall>th \<in> set (threads s). before_bind 1 th"
      using assms(1) before_bind_mono by (auto simp: unbound_def)
    then have "\<forall>th \<in> set ((threads s)[t := InStart reg St155]). before_bind 1 th"
      by (rule set_update_all) simp
    then show ?thesis using assms(1) St146 by (simp add: unbound_def)
  next
    case St155
    have "\<forall>th \<in> set ((threads s)[t := InStart reg St158]). before_bind (bindWait s) th"
      using assms(1) bb St155 by (intro set_update_all) (auto simp: unbound_def)
    then show ?thesis using assms(1) St155 by (simp add: unbound_def)
  next
    case St158
    then show ?thesis using assms(1) bb by simp
  qed (use bb in auto)
qed

lemma unbound_Shutdown:
  assumes "unbound s" "t < length (threads s)" "threads s ! t = InShutdown pc"
  shows "unbound (Shutdown t pc r s)"
proof -
  have mem: "InShutdown pc \<in> set (threads s)" using assms(2,3) by (metis nth_mem)
  then have bb: "before_bind (bindWait s) (InShutdown pc)" using assms(1) unfolding unbound_def by blast
  have upd: "\<And>pc'. before_bind (bindWait s) (InShutdown pc') \<Longrightarrow>
     \<forall>th \<in> set ((threads s)[t := InShutdown pc']). before_bind (bindWait s) th"
    using assms(1) by (intro set_update_all) (auto simp: unbound_def)
  from bb consider "pc = Sh115" | "pc = Sh116" | "pc = Sh119" | "pc = Sh121" by auto
  then show ?thesis
  proof cases
    case 1
    then show ?thesis using assms(1) upd[of Sh116] upd[of Sh119] by (simp add: unbound_def)
  next
    case 2
    then show ?thesis using assms(1) by simp
  next
    case 3
    then show ?thesis using assms(1) upd[of Sh121] by (simp add: unbound_def)
  next
    case 4
    then show ?thesis using assms(1) by simp
  qed
qed

lemma unbound_step: "unbound s \<Longrightarrow> unbound (step s c)"
proof (cases "crashed s")
  case True
  assume "unbound s"
  with True show ?thesis by (simp add: step_def)
next
  case False
  assume u: "unbound s"
  show ?thesis
  proof (cases c)
    case (Call k)
    then show ?thesis using u False by (cases k) (auto simp: step_def unbound_def)
  next
    case (Run t r)
    show ?thesis
    proof (cases "t < length (threads s)")
      case True
      then show ?thesis using u Run False unbound_Start unbound_Shutdown
        by (cases "threads s ! t") (simp_all add: step_def run_def)
    next
      case False
      then show ?thesis using u Run by (simp add: step_def run_def)
    qed
  next
    case (RecvRegistered t)
    then show ?thesis using u False by (simp add: step_def recv_registered_def unbound_def)
  next
    case RecvConnection
    then show ?thesis using u False by (simp add: step_def recv_connection_def unbound_def)
  next
    case RecvDone
    then show ?thesis using u False by (simp add: step_def recv_done_def unbound_def)
  next
    case (Handle e)
    then show ?thesis using u False by (simp add: step_def handle_def unbound_def)
  next
    case ActorReturn
    then show ?thesis using u False by (simp add: step_def actor_return_def unbound_def)
  next
    case Drain
    then show ?thesis using u False
      by (auto simp: step_def drain_recv_def unbound_def split: option.splits list.splits)
  next
    case (Listen a)
    then show ?thesis using u False by (auto simp: step_def unbound_def)
  next
    case RequestBegin
    then show ?thesis using u False by (auto simp: step_def request_begin_def unbound_def)
  next
    case RequestEnd
    then show ?thesis using u False
      by (auto simp: step_def request_end_def unbound_def split: nat.splits)
  qed
qed

lemma unbound_exec: "unbound s \<Longrightarrow> unbound (exec s cs)"
  by (induction cs arbitrary: s) (simp_all add: unbound_step)

text \<open>
  Claim C8. When \<^verbatim>\<open>addr.Listen()\<close> fails, then whatever the goroutines do and in
  whatever order, the service manager's \<^verbatim>\<open>Add\<close> and \<^verbatim>\<open>Register\<close> are
  never called, the delegate is never told the service is registered, no connection gets a
  handshake or a serving goroutine, the flag stays false and the actor is never started:
  \<^verbatim>\<open>Start\<close> does not get past \<^verbatim>\<open>bindWait.Wait()\<close>. And the listener's
  first statement panics, which ends the process.
\<close>

theorem bind_failure_aborts_startup:
  "(\<forall>w. (w, ManagerAdd) \<notin> set (trace (exec (init reg (Some e)) sched)))
   \<and> (\<forall>w. (w, ManagerRegister) \<notin> set (trace (exec (init reg (Some e)) sched)))
   \<and> (\<forall>w. (w, DelegateRegistered) \<notin> set (trace (exec (init reg (Some e)) sched)))
   \<and> (\<forall>w c h. (w, Encode c h) \<notin> set (trace (exec (init reg (Some e)) sched)))
   \<and> (\<forall>w c. (w, ServeCodec c) \<notin> set (trace (exec (init reg (Some e)) sched)))
   \<and> \<not> Registered (exec (init reg (Some e)) sched)
   \<and> actor (exec (init reg (Some e)) sched) = NotStarted
   \<and> (listener (exec (init reg (Some e)) sched) = AtListen
        \<and> \<not> crashed (exec (init reg (Some e)) sched) \<longrightarrow>
      step (exec (init reg (Some e)) sched) (Listen a) = crash e (exec (init reg (Some e)) sched))"
proof -
  define s where "s = exec (init reg (Some e)) sched"
  have u: "unbound s" unfolding s_def by (rule unbound_exec) (rule unbound_init)
  have be: "bind_err s = Some e" by (simp add: s_def init_def)
  have tr: "\<forall>p \<in> set (trace s). before_bind_action (snd p)" using u by (simp add: unbound_def)
  have no: "(w, x) \<notin> set (trace s)" if "\<not> before_bind_action x" for w x
    using tr that by fastforce
  have "step s (Listen a) = crash e s" if "listener s = AtListen" "\<not> crashed s"
    using that be by (simp add: step_def)
  then show ?thesis
    using u no[of ManagerAdd] no[of ManagerRegister] no[of DelegateRegistered]
      no[of "Encode _ _"] no[of "ServeCodec _"]
    unfolding s_def[symmetric] by (simp add: unbound_def)
qed

theorem bind_failure_aborts_startup_witness:
  "trace (exec (init True (Some ''address already in use''))
         [Run 0 None, Call CallShutdown, Run 0 None, Run 1 None, Run 1 None, RecvRegistered 1,
          Run 0 None, Listen (Inl ''e''), Run 0 None, Handle (answers ''x'')])
     = [(Thread 1, SetShuttingDown), (Process, Panic ''address already in use'')]
   \<and> threads (exec (init True (Some ''address already in use''))
         [Run 0 None, Call CallShutdown, Run 0 None, Run 1 None, Run 1 None, RecvRegistered 1,
          Run 0 None, Listen (Inl ''e''), Run 0 None, Handle (answers ''x'')])
     = [InStart True St158, InShutdown Sh121]
   \<and> (Thread 0, ManagerAdd)
       \<notin> set (trace (exec (init True (Some ''address already in use''))
         [Run 0 None, Call CallShutdown, Run 0 None, Run 1 None, Run 1 None, RecvRegistered 1,
          Run 0 None, Listen (Inl ''e''), Run 0 None, Handle (answers ''x'')]))
   \<and> \<not> Registered (exec (init True (Some ''address already in use''))
         [Run 0 None, Call CallShutdown, Run 0 None, Run 1 None, Run 1 None, RecvRegistered 1,
          Run 0 None, Listen (Inl ''e''), Run 0 None, Handle (answers ''x'')])
   \<and> actor (exec (init True (Some ''address already in use''))
         [Run 0 None, Call CallShutdown, Run 0 None, Run 1 None, Run 1 None, RecvRegistered 1,
          Run 0 None, Listen (Inl ''e''), Run 0 None, Handle (answers ''x'')]) = NotStarted"
proof -
  have tr: "trace (exec (init True (Some ''address already in use''))
         [Run 0 None, Call CallShutdown, Run 0 None, Run 1 None, Run 1 None, RecvRegistered 1,
          Run 0 None, Listen (Inl ''e''), Run 0 None, Handle (answers ''x'')])
     = [(Thread 1, SetShuttingDown), (Process, Panic ''address already in use'')]"
    by code_simp
  have th: "threads (exec (init True (Some ''address already in use''))
         [Run 0 None, Call CallShutdown, Run 0 None, Run 1 None, Run 1 None, RecvRegistered 1,
          Run 0 None, Listen (Inl ''e''), Run 0 None, Handle (answers ''x'')])
     = [InStart True St158, InShutdown Sh121]"
    by code_simp
  from tr th bind_failure_aborts_startup
    [of True "''address already in use''"
        "[Run 0 None, Call CallShutdown, Run 0 None, Run 1 None, Run 1 None, RecvRegistered 1,
          Run 0 None, Listen (Inl ''e''), Run 0 None, Handle (answers ''x'')]"]
  show ?thesis by blast
qed

subsection \<open>What each goroutine has done\<close>

lemma performed_emit [simp]:
  "performed w (emit w' as s) = performed w s @ (if w = w' then as else [])"
  by (induction as) (auto simp: performed_def emit_def)

lemma performed_crash [simp]:
  "performed w (crash e s) = performed w s @ (if w = Process then [Panic e] else [])"
  by (auto simp: performed_def crash_def)

lemma performed_set_thread [simp]: "performed w (set_thread t th s) = performed w s"
  by (simp add: performed_def set_thread_def)

lemma performed_updates [simp]:
  "performed w (s\<lparr>shuttingDown := a\<rparr>) = performed w s"
  "performed w (s\<lparr>doneGroup := b\<rparr>) = performed w s"
  "performed w (s\<lparr>doneChan := c\<rparr>) = performed w s"
  "performed w (s\<lparr>activeRequests := d\<rparr>) = performed w s"
  "performed w (s\<lparr>bindWait := f\<rparr>) = performed w s"
  "performed w (s\<lparr>listener := g\<rparr>) = performed w s"
  "performed w (s\<lparr>actor := h\<rparr>) = performed w s"
  "performed w (s\<lparr>drain := i\<rparr>) = performed w s"
  "performed w (s\<lparr>threads := j\<rparr>) = performed w s"
  "performed w (s\<lparr>serviceInfoCopies := k\<rparr>) = performed w s"
  by (simp_all add: performed_def)

lemma progress_inv_moves:
  assumes "progress_inv s" "t < length (threads s)" "moves t th as s s'"
    and "\<And>r. performed (Thread t) s = progress (threads s ! t) r \<Longrightarrow>
            \<exists>r'. progress (threads s ! t) r @ as = progress th r'"
    and "th \<noteq> InStart False St175"
  shows "progress_inv s'"
  unfolding progress_inv_def
proof (intro conjI allI)
  fix t'
  have len: "length (threads s') = length (threads s)" using assms(3) by (simp add: moves_def)
  show "if t' < length (threads s')
        then \<exists>r. performed (Thread t') s' = progress (threads s' ! t') r
        else performed (Thread t') s' = []"
  proof (cases "t' = t")
    case True
    obtain r where r: "performed (Thread t) s = progress (threads s ! t) r"
      using assms(1,2) unfolding progress_inv_def by (metis (full_types))
    then obtain r' where "progress (threads s ! t) r @ as = progress th r'" using assms(4) by blast
    then show ?thesis using True r assms(2,3) len by (auto simp: moves_def)
  next
    case False
    then show ?thesis using assms(1,3) len unfolding progress_inv_def moves_def
      by (metis (full_types) append_Nil2 nth_list_update_neq)
  qed
next
  have "set (threads s') \<subseteq> insert th (set (threads s))"
    using assms(3) by (simp add: moves_def set_update_subset_insert)
  then show "InStart False St175 \<notin> set (threads s')"
    using assms(1,5) unfolding progress_inv_def by auto
qed

lemma progress_inv_same:
  assumes "progress_inv s" "threads s' = threads s"
    "\<And>t'. performed (Thread t') s' = performed (Thread t') s"
  shows "progress_inv s'"
  using assms unfolding progress_inv_def by simp

lemma moves_Shutdown:
  assumes "threads s ! t = InShutdown pc" "t < length (threads s)"
  shows "Shutdown t pc r s = s
       \<or> (\<exists>e. Shutdown t pc r s = crash e s)
       \<or> (\<exists>pc' as. moves t (InShutdown pc') as s (Shutdown t pc r s)
             \<and> (\<forall>r0. \<exists>r'. Shutdown_progress pc r0 @ as = Shutdown_progress pc' r'))"
proof (cases pc)
  case Sh115
  show ?thesis
  proof (cases "shuttingDown s")
    case True
    have "moves t (InShutdown Sh116) [] s (Shutdown t pc r s)"
      using Sh115 True by (simp add: moves_def)
    moreover have "\<forall>r0. \<exists>r'. Shutdown_progress pc r0 @ [] = Shutdown_progress Sh116 r'"
      using Sh115 by auto
    ultimately show ?thesis by blast
  next
    case False
    have "moves t (InShutdown Sh119) [] s (Shutdown t pc r s)"
      using Sh115 False by (simp add: moves_def)
    moreover have "\<forall>r0. \<exists>r'. Shutdown_progress pc r0 @ [] = Shutdown_progress Sh119 r'"
      using Sh115 by auto
    ultimately show ?thesis by blast
  qed
next
  case Sh119
  then show ?thesis
    by (auto simp: moves_def intro!: exI[of _ Sh121] exI[of _ "[SetShuttingDown]"])
next
  case Sh123
  then show ?thesis
    by (auto simp: moves_def split: option.splits
        intro!: exI[of _ Sh125] exI[of _ "[DoneGroupAdd]"])
next
  case Sh125
  then show ?thesis
    by (auto simp: moves_def split: option.splits
        intro!: exI[of _ Sh127] exI[of _ "[SendDone]"])
next
  case Sh127
  then show ?thesis
    by (auto simp: moves_def intro!: exI[of _ Sh129] exI[of _ "[ActiveRequestsWait]"])
next
  case Sh129
  have "moves t (InShutdown Sh134) (ManagerRemove # manager_log ''Failed to remove service: '' r) s
          (Shutdown t pc r s)"
    using Sh129 by (simp add: moves_def)
  moreover have "\<forall>r0. \<exists>r'. Shutdown_progress pc r0 @ (ManagerRemove # manager_log ''Failed to remove service: '' r)
                    = Shutdown_progress Sh134 r'"
    using Sh129 by auto
  ultimately show ?thesis by blast
next
  case Sh134
  have "moves t (InShutdown Sh136) [DelegateStopped] s (Shutdown t pc r s)"
    using Sh134 by (simp add: moves_def)
  moreover have "\<forall>r0. \<exists>r'. Shutdown_progress pc r0 @ [DelegateStopped] = Shutdown_progress Sh136 r'"
    using Sh134 by auto
  ultimately show ?thesis by blast
next
  case Sh136
  show ?thesis
  proof (cases "doneGroup s")
    case None
    with Sh136 show ?thesis by auto
  next
    case (Some n)
    show ?thesis
    proof (cases n)
      case 0
      with Some Sh136 show ?thesis by auto
    next
      case (Suc m)
      have "moves t (InShutdown Sh137) [DoneGroupDone] s (Shutdown t pc r s)"
        using Sh136 Some Suc by (simp add: moves_def)
      moreover have "\<forall>r0. \<exists>r'. Shutdown_progress pc r0 @ [DoneGroupDone] = Shutdown_progress Sh137 r'"
        using Sh136 by auto
      ultimately show ?thesis by blast
    qed
  qed
qed simp_all


lemma moves_Start:
  assumes "threads s ! t = InStart reg pc" "t < length (threads s)"
  shows "Start t reg pc r s = s
       \<or> (\<exists>pc' as. moves t (InStart reg pc') as s (Start t reg pc r s)
             \<and> InStart reg pc' \<noteq> InStart False St175
             \<and> (\<forall>r0. \<exists>r'. Start_progress reg pc r0 @ as = Start_progress reg pc' r'))"
proof (cases pc)
  case St146
    have "moves t (InStart reg St155) [] s (Start t reg pc r s)"
      using St146  by (simp add: moves_def)
    moreover have "\<forall>r0. \<exists>r'. Start_progress reg pc r0 @ [] = Start_progress reg St155 r'"
      using St146  by auto
    moreover have "InStart reg St155 \<noteq> InStart False St175" by simp
    ultimately show ?thesis by blast
next
  case St155
    have "moves t (InStart reg St158) [] s (Start t reg pc r s)"
      using St155  by (simp add: moves_def)
    moreover have "\<forall>r0. \<exists>r'. Start_progress reg pc r0 @ [] = Start_progress reg St158 r'"
      using St155  by auto
    moreover have "InStart reg St158 \<noteq> InStart False St175" by simp
    ultimately show ?thesis by blast
next
  case St158
  show ?thesis
  proof (cases "bindWait s = 0")
    case True
    have "moves t (InStart reg St160) [BindWaitWait] s (Start t reg pc r s)"
      using St158 True by (simp add: moves_def)
    moreover have "\<forall>r0. \<exists>r'. Start_progress reg pc r0 @ [BindWaitWait] = Start_progress reg St160 r'"
      using St158 True by auto
    moreover have "InStart reg St160 \<noteq> InStart False St175" by simp
    ultimately show ?thesis by blast
  next
    case False
    with St158 show ?thesis by simp
  qed
next
  case St160
    have "moves t (InStart reg St163) [] s (Start t reg pc r s)"
      using St160  by (simp add: moves_def)
    moreover have "\<forall>r0. \<exists>r'. Start_progress reg pc r0 @ [] = Start_progress reg St163 r'"
      using St160  by auto
    moreover have "InStart reg St163 \<noteq> InStart False St175" by simp
    ultimately show ?thesis by blast
next
  case St163
    have "moves t (InStart reg St169) [] s (Start t reg pc r s)"
      using St163  by (simp add: moves_def)
    moreover have "\<forall>r0. \<exists>r'. Start_progress reg pc r0 @ [] = Start_progress reg St169 r'"
      using St163  by auto
    moreover have "InStart reg St169 \<noteq> InStart False St175" by simp
    ultimately show ?thesis by blast
next
  case St169
    have "moves t (InStart reg St174) (ManagerAdd # manager_log ''Failed to add service: '' r) s (Start t reg pc r s)"
      using St169  by (simp add: moves_def)
    moreover have "\<forall>r0. \<exists>r'. Start_progress reg pc r0 @ (ManagerAdd # manager_log ''Failed to add service: '' r) = Start_progress reg St174 r'"
      using St169  by auto
    moreover have "InStart reg St174 \<noteq> InStart False St175" by simp
    ultimately show ?thesis by blast
next
  case St174
  show ?thesis
  proof (cases reg)
    case True
    have "moves t (InStart reg St175) [] s (Start t reg pc r s)"
      using St174 True by (simp add: moves_def)
    moreover have "\<forall>r0. \<exists>r'. Start_progress reg pc r0 @ [] = Start_progress reg St175 r'"
      using St174 True by auto
    moreover have "InStart reg St175 \<noteq> InStart False St175" using True by simp
    ultimately show ?thesis by blast
  next
    case False
    have "moves t (InStart reg St178) [] s (Start t reg pc r s)"
      using St174 False by (simp add: moves_def)
    moreover have "\<forall>r0. \<exists>r'. Start_progress reg pc r0 @ [] = Start_progress reg St178 r'"
      using St174 False by auto
    moreover have "InStart reg St178 \<noteq> InStart False St175" by simp
    ultimately show ?thesis by blast
  qed
next
  case St178
    have "moves t (InStart reg St180) [DelegateStarted] s (Start t reg pc r s)"
      using St178  by (simp add: moves_def)
    moreover have "\<forall>r0. \<exists>r'. Start_progress reg pc r0 @ [DelegateStarted] = Start_progress reg St180 r'"
      using St178  by auto
    moreover have "InStart reg St180 \<noteq> InStart False St175" by simp
    ultimately show ?thesis by blast
qed simp_all


lemma performed_mux_select [simp]:
  "performed w (fst (snd (mux_select m e s))) = performed w s"
  by (simp add: performed_def)

lemma handle_threads [simp]: "threads (handle e s) = threads s"
  by (cases "actor s") (simp_all add: handle_def split: prod.splits,
      metis fst_conv snd_conv mux_select_system_fields(1))

lemma handle_performed_thread [simp]:
  "performed (Thread t) (handle e s) = performed (Thread t) s"
  by (cases "actor s") (simp_all add: handle_def split: prod.splits,
      metis fst_conv snd_conv performed_mux_select)

lemma progress_inv_Call:
  assumes "progress_inv s"
  shows "progress_inv (s\<lparr>threads := threads s @ [entry k]\<rparr>)"
  unfolding progress_inv_def
proof (intro conjI allI)
  fix t
  have e: "progress (entry k) None = []" by (cases k) simp_all
  have out: "performed (Thread (length (threads s))) s = []"
    using assms unfolding progress_inv_def by (metis (full_types) less_irrefl)
  consider "t < length (threads s)" | "t = length (threads s)" | "t > length (threads s)"
    by linarith
  then show "if t < length (threads (s\<lparr>threads := threads s @ [entry k]\<rparr>))
        then \<exists>r. performed (Thread t) (s\<lparr>threads := threads s @ [entry k]\<rparr>) =
                  progress (threads (s\<lparr>threads := threads s @ [entry k]\<rparr>) ! t) r
        else performed (Thread t) (s\<lparr>threads := threads s @ [entry k]\<rparr>) = []"
  proof cases
    case 1
    then show ?thesis using assms unfolding progress_inv_def
      by (simp add: nth_append)
  next
    case 2
    then show ?thesis using e out by (auto intro: exI[of _ None])
  next
    case 3
    then show ?thesis using assms unfolding progress_inv_def
      by simp
  qed
next
  show "InStart False St175 \<notin> set (threads (s\<lparr>threads := threads s @ [entry k]\<rparr>))"
    using assms unfolding progress_inv_def by (cases k) auto
qed

lemma progress_inv_run:
  assumes "progress_inv s"
  shows "progress_inv (run t r s)"
proof (cases "t < length (threads s)")
  case False
  then show ?thesis using assms by (simp add: run_def)
next
  case True
  show ?thesis
  proof (cases "threads s ! t")
    case (InStart reg pc)
    from moves_Start[OF InStart True, of r] show ?thesis
    proof (elim disjE exE conjE)
      assume "Start t reg pc r s = s"
      then show ?thesis using assms True InStart by (simp add: run_def)
    next
      fix pc' as
      assume m: "moves t (InStart reg pc') as s (Start t reg pc r s)"
        and ne: "InStart reg pc' \<noteq> InStart False St175"
        and p: "\<forall>r0. \<exists>r'. Start_progress reg pc r0 @ as = Start_progress reg pc' r'"
      have "progress_inv (Start t reg pc r s)"
        using assms True m _ ne by (rule progress_inv_moves) (use p InStart in auto)
      then show ?thesis using True InStart by (simp add: run_def)
    qed
  next
    case (InShutdown pc)
    from moves_Shutdown[OF InShutdown True, of r] show ?thesis
    proof (elim disjE exE conjE)
      assume "Shutdown t pc r s = s"
      then show ?thesis using assms True InShutdown by (simp add: run_def)
    next
      fix e
      assume c: "Shutdown t pc r s = crash e s"
      have "progress_inv (crash e s)" using assms by (rule progress_inv_same) simp_all
      then show ?thesis using True InShutdown c by (simp add: run_def)
    next
      fix pc' as
      assume m: "moves t (InShutdown pc') as s (Shutdown t pc r s)"
        and p: "\<forall>r0. \<exists>r'. Shutdown_progress pc r0 @ as = Shutdown_progress pc' r'"
      have "progress_inv (Shutdown t pc r s)"
        using assms True m by (rule progress_inv_moves) (use p InShutdown in auto)
      then show ?thesis using True InShutdown by (simp add: run_def)
    qed
  qed (use assms True in \<open>simp_all add: run_def\<close>)
qed

lemma progress_inv_recv_registered:
  assumes "progress_inv s"
  shows "progress_inv (recv_registered t s)"
proof (cases "actor s = Selecting \<and> t < length (threads s)")
  case False
  then show ?thesis using assms by (auto simp: recv_registered_def)
next
  case True
  show ?thesis
  proof (cases "sending (threads s ! t)")
    case None
    then show ?thesis using assms by (simp add: recv_registered_def)
  next
    case (Some p)
    obtain b th where p: "p = (b, th)" by (cases p)
    let ?s' = "emit (Thread t) [SendRegistered b] (set_thread t th (s\<lparr>actor := Handling (RegisteredMsg b)\<rparr>))"
    have eq: "recv_registered t s = ?s'" using True Some p by (simp add: recv_registered_def)
    have m: "moves t th [SendRegistered b] s ?s'" by (simp add: moves_def)
    have mem: "threads s ! t \<in> set (threads s)" using True by simp
    then have nf: "threads s ! t \<noteq> InStart False St175"
      using assms unfolding progress_inv_def by metis
    have pr: "\<exists>r'. progress (threads s ! t) r @ [SendRegistered b] = progress th r'" for r
      using Some p nf by (cases "threads s ! t" rule: sending.cases) (auto split: if_splits)
    have ne: "th \<noteq> InStart False St175"
      using Some p by (cases "threads s ! t" rule: sending.cases) auto
    have "progress_inv ?s'" using assms _ m _ ne by (rule progress_inv_moves) (use True pr in auto)
    then show ?thesis using eq by simp
  qed
qed

lemma progress_inv_step: "progress_inv s \<Longrightarrow> progress_inv (step s c)"
proof (cases "crashed s")
  case True
  assume "progress_inv s"
  with True show ?thesis by (simp add: step_def)
next
  case False
  assume u: "progress_inv s"
  show ?thesis
  proof (cases c)
    case (Call k)
    then show ?thesis using False progress_inv_Call[OF u] by (simp add: step_def)
  next
    case (Run t r)
    then show ?thesis using False progress_inv_run[OF u] by (simp add: step_def)
  next
    case (RecvRegistered t)
    then show ?thesis using False progress_inv_recv_registered[OF u] by (simp add: step_def)
  next
    case RecvConnection
    have "progress_inv (recv_connection s)" using u
      by (rule progress_inv_same)
         (simp_all add: recv_connection_def performed_def split: listener_state.splits)
    then show ?thesis using RecvConnection False by (simp add: step_def)
  next
    case RecvDone
    have "progress_inv (recv_done s)" using u
      by (rule progress_inv_same)
         (simp_all add: recv_done_def performed_def split: option.splits list.splits)
    then show ?thesis using RecvDone False by (simp add: step_def)
  next
    case (Handle e)
    have "progress_inv (handle e s)" using u by (rule progress_inv_same) simp_all
    then show ?thesis using Handle False by (simp add: step_def)
  next
    case ActorReturn
    have "progress_inv (actor_return s)" using u
      by (rule progress_inv_same)
         (simp_all add: actor_return_def split: option.splits nat.splits)
    then show ?thesis using ActorReturn False by (simp add: step_def)
  next
    case Drain
    have "progress_inv (drain_recv s)" using u
      by (rule progress_inv_same)
         (simp_all add: drain_recv_def performed_def split: option.splits list.splits)
    then show ?thesis using Drain False by (simp add: step_def)
  next
    case (Listen a)
    have "progress_inv (listen (listener s) a s)" using u
      by (rule progress_inv_same)
         (cases "listener s"; simp split: option.splits nat.splits sum.splits)+
    then show ?thesis using Listen False by (simp add: step_def)
  next
    case RequestBegin
    have "progress_inv (request_begin s)" using u
      by (rule progress_inv_same) (simp_all add: request_begin_def)
    then show ?thesis using RequestBegin False by (simp add: step_def)
  next
    case RequestEnd
    have "progress_inv (request_end s)" using u
      by (rule progress_inv_same) (simp_all add: request_end_def split: nat.splits)
    then show ?thesis using RequestEnd False by (simp add: step_def)
  qed
qed

lemma progress_inv_init: "progress_inv (init reg be)"
  by (auto simp: progress_inv_def init_def performed_def)

lemma progress_inv_exec: "progress_inv s \<Longrightarrow> progress_inv (exec s cs)"
  by (induction cs arbitrary: s) (simp_all add: progress_inv_step)

subsection \<open>The requests in flight\<close>

lemma in_flight_Nil [simp]: "in_flight [] = 0"
  by (simp add: in_flight_def)

lemma in_flight_Cons [simp]: "in_flight (p # tr) = weight (snd p) + in_flight tr"
  by (simp add: in_flight_def)

lemma in_flight_append [simp]: "in_flight (xs @ ys) = in_flight xs + in_flight ys"
  by (simp add: in_flight_def)

lemma waits_ok_append [simp]:
  "waits_ok n (xs @ ys) \<longleftrightarrow> waits_ok n xs \<and> waits_ok (n + in_flight xs) ys"
  by (induction xs arbitrary: n) (auto simp: add.assoc)

lemma in_flight_neutral:
  "\<forall>a \<in> set as. weight a = 0 \<Longrightarrow> in_flight (map (Pair w) as) = 0"
  by (induction as) simp_all

lemma waits_ok_neutral:
  "\<forall>a \<in> set as. weight a = 0 \<and> a \<noteq> ActiveRequestsWait \<Longrightarrow> waits_ok n (map (Pair w) as)"
  by (induction as) simp_all

lemma manager_log_neutral:
  "\<forall>a \<in> set (manager_log what r). weight a = 0 \<and> a \<noteq> ActiveRequestsWait"
  by (cases r) (simp_all add: manager_log_def)

lemma in_flight_manager_log [simp]: "in_flight (map (Pair w) (manager_log what r)) = 0"
  using manager_log_neutral by (intro in_flight_neutral) blast

lemma waits_ok_manager_log [simp]: "waits_ok n (map (Pair w) (manager_log what r))"
  using manager_log_neutral by (intro waits_ok_neutral) blast

lemma mux_select_neutral:
  "\<forall>a \<in> set (fst (mux_select m e s)). weight a = 0 \<and> a \<noteq> ActiveRequestsWait"
  by (cases m)
     (auto simp: mux_connection_def Let_def register_def unregister_def split: option.splits)

lemma requests_inv_emit_neutral:
  assumes "requests_inv s" "\<forall>a \<in> set as. weight a = 0 \<and> a \<noteq> ActiveRequestsWait"
    "activeRequests s' = activeRequests s" "trace s' = trace s @ map (Pair w) as"
  shows "requests_inv s'"
  using assms in_flight_neutral[of as w] waits_ok_neutral[of as "in_flight (trace s)" w]
  by (simp add: requests_inv_def)

lemma requests_inv_same:
  assumes "requests_inv s" "activeRequests s' = activeRequests s" "trace s' = trace s"
  shows "requests_inv s'"
  using assms by (simp add: requests_inv_def)

lemma requests_inv_Shutdown: "requests_inv s \<Longrightarrow> requests_inv (Shutdown t pc r s)"
  by (cases pc) (auto simp: requests_inv_def split: option.splits nat.splits)

lemma requests_inv_Start: "requests_inv s \<Longrightarrow> requests_inv (Start t reg pc r s)"
  by (cases pc) (auto simp: requests_inv_def)

lemma requests_inv_listen: "requests_inv s \<Longrightarrow> requests_inv (listen l a s)"
  by (cases l) (auto simp: requests_inv_def split: option.splits nat.splits sum.splits)

lemma requests_inv_handle: "requests_inv s \<Longrightarrow> requests_inv (handle e s)"
proof (cases "actor s")
  case (Handling m)
  assume r: "requests_inv s"
  obtain as s' l where sel: "mux_select m e s = (as, s', l)" by (metis prod_cases3)
  have n: "\<forall>a \<in> set as. weight a = 0 \<and> a \<noteq> ActiveRequestsWait"
    using mux_select_neutral[of m e s] sel by simp
  have a: "activeRequests s' = activeRequests s" "trace s' = trace s"
    using mux_select_service_fields(2)[of m e s] mux_select_system_fields(8)[of m e s] sel
    by simp_all
  have "requests_inv (emit Actor as (s'\<lparr>actor := (if l then AfterMux else Selecting),
                     drain := (drain s' \<or> l)\<rparr>))"
    using r n by (rule requests_inv_emit_neutral[where w = Actor]) (simp_all add: a)
  then show ?thesis using Handling sel by (simp add: handle_def)
qed (simp_all add: handle_def)

lemma requests_inv_step: "requests_inv s \<Longrightarrow> requests_inv (step s c)"
proof (cases "crashed s")
  case True
  assume "requests_inv s"
  with True show ?thesis by (simp add: step_def)
next
  case False
  assume u: "requests_inv s"
  show ?thesis
  proof (cases c)
    case (Call k)
    then show ?thesis using False u by (simp add: step_def requests_inv_def)
  next
    case (Run t r)
    then show ?thesis using False u requests_inv_Shutdown requests_inv_Start
      by (simp add: step_def run_def split: thread.splits)
  next
    case (RecvRegistered t)
    then show ?thesis using False u
      by (auto simp: step_def recv_registered_def requests_inv_def split: option.splits)
  next
    case RecvConnection
    then show ?thesis using False u
      by (auto simp: step_def recv_connection_def requests_inv_def split: listener_state.splits)
  next
    case RecvDone
    then show ?thesis using False u
      by (auto simp: step_def recv_done_def requests_inv_def split: option.splits list.splits)
  next
    case (Handle e)
    then show ?thesis using False u requests_inv_handle by (simp add: step_def)
  next
    case ActorReturn
    then show ?thesis using False u
      by (auto simp: step_def actor_return_def requests_inv_def split: option.splits nat.splits)
  next
    case Drain
    then show ?thesis using False u
      by (auto simp: step_def drain_recv_def requests_inv_def split: option.splits list.splits)
  next
    case (Listen a)
    then show ?thesis using False u requests_inv_listen by (simp add: step_def)
  next
    case RequestBegin
    then show ?thesis using False u by (auto simp: step_def request_begin_def requests_inv_def)
  next
    case RequestEnd
    then show ?thesis using False u
      by (auto simp: step_def request_end_def requests_inv_def split: nat.splits)
  qed
qed

lemma requests_inv_init: "requests_inv (init reg be)"
  by (simp add: requests_inv_def init_def)

lemma requests_inv_exec: "requests_inv s \<Longrightarrow> requests_inv (exec s cs)"
  by (induction cs arbitrary: s) (simp_all add: requests_inv_step)

lemma waits_ok_decomp:
  "waits_ok n (pre @ (w, ActiveRequestsWait) # post) \<Longrightarrow> n + in_flight pre = 0"
  by simp

subsection \<open>After the actor has left its loop\<close>

















subsection \<open>What the callers wait for\<close>

lemma Shutdown_other_thread:
  "t' \<noteq> t \<Longrightarrow> threads (Shutdown t' pc r s) ! t = threads s ! t"
  by (cases pc) (simp_all split: option.splits nat.splits)

lemma Start_other_thread:
  "t' \<noteq> t \<Longrightarrow> threads (Start t' reg pc r s) ! t = threads s ! t"
  by (cases pc) simp_all

lemma listen_threads [simp]: "threads (listen l a s) = threads s"
  by (cases l) (simp_all split: option.splits nat.splits sum.splits)

lemma sending_blocked_run:
  assumes "t < length (threads s)" "sending (threads s ! t) = Some (b, th)"
  shows "threads (run t' r s) ! t = threads s ! t"
proof (cases "t' = t")
  case True
  show ?thesis using assms True
    by (cases "threads s ! t" rule: sending.cases) (simp_all add: run_def)
next
  case False
  then show ?thesis using Shutdown_other_thread Start_other_thread
    by (simp add: run_def split: thread.splits)
qed

lemma sending_blocked_step:
  assumes "t < length (threads s)" "sending (threads s ! t) = Some (b, th)"
    "c \<noteq> RecvRegistered t"
  shows "threads (step s c) ! t = threads s ! t"
proof (cases "crashed s")
  case True
  then show ?thesis by (simp add: step_def)
next
  case False
  show ?thesis
  proof (cases c)
    case (Call k)
    then show ?thesis using False assms(1) by (simp add: step_def nth_append)
  next
    case (Run t' r)
    then show ?thesis using False sending_blocked_run[OF assms(1,2)] by (simp add: step_def)
  next
    case (RecvRegistered t')
    then have "t' \<noteq> t" using assms(3) by simp
    then show ?thesis using RecvRegistered False
      by (simp add: step_def recv_registered_def split: option.splits)
  qed (use False in \<open>simp_all add: step_def recv_connection_def recv_done_def
        actor_return_def drain_recv_def request_begin_def request_end_def
        split: option.splits nat.splits list.splits listener_state.splits\<close>)
qed

lemma sending_received:
  assumes "t < length (threads s)" "sending (threads s ! t) = Some (b, th)"
    "\<not> crashed s" "actor s = Selecting"
  shows "threads (step s (RecvRegistered t)) ! t = th"
    "Registered (step s (RecvRegistered t)) = Registered s"
    "performed Actor (step s (RecvRegistered t)) = performed Actor s"
    "Registered (step (step s (RecvRegistered t)) (Handle e)) = b"
proof -
  have eq: "step s (RecvRegistered t) =
      emit (Thread t) [SendRegistered b]
        (set_thread t th (s\<lparr>actor := Handling (RegisteredMsg b)\<rparr>))"
    using assms by (simp add: step_def recv_registered_def)
  show "threads (step s (RecvRegistered t)) ! t = th" using assms(1) by (simp add: eq)
  show "Registered (step s (RecvRegistered t)) = Registered s" by (simp add: eq)
  show "performed Actor (step s (RecvRegistered t)) = performed Actor s" by (simp add: eq)
  define x where "x = emit (Thread t) [SendRegistered b]
        (set_thread t th (s\<lparr>actor := Handling (RegisteredMsg b)\<rparr>))"
  have x: "\<not> crashed x" "actor x = Handling (RegisteredMsg b)"
    using assms(3) by (simp_all add: x_def)
  obtain as s' l where sel: "mux_select (RegisteredMsg b) e x = (as, s', l)"
    by (metis prod_cases3)
  then have "Registered s' = b" using mux_select_toggle by blast
  then have "Registered (step x (Handle e)) = b"
    using x sel by (simp add: step_def handle_def del: mux_select.simps)
  then show "Registered (step (step s (RecvRegistered t)) (Handle e)) = b"
    unfolding eq x_def .
qed

lemma not_selecting_no_receive:
  "actor s \<noteq> Selecting \<Longrightarrow> step s (RecvRegistered t) = s"
  by (simp add: step_def recv_registered_def)

lemma Wait_blocked:
  "t < length (threads s) \<Longrightarrow> threads s ! t = InShutdown Sh127 \<Longrightarrow> activeRequests s \<noteq> 0 \<Longrightarrow>
   step s (Run t r) = s"
  by (simp add: step_def run_def)

text \<open>
  Claim C7 says that \<^verbatim>\<open>Register()\<close>, \<^verbatim>\<open>Unregister()\<close> and
  \<^verbatim>\<open>Shutdown()\<close> queue an event and return at once. They do not. With one request
  in flight, a goroutine that called \<^verbatim>\<open>Shutdown()\<close> is held at
  \<^verbatim>\<open>activeRequests.Wait()\<close> (line 127), before \<^verbatim>\<open>Remove\<close> and
  \<^verbatim>\<open>Stopped\<close>, however often it is given the chance to run. And once the actor has
  finished, a goroutine that calls \<^verbatim>\<open>Register()\<close> stays in its send on the
  unbuffered \<^verbatim>\<open>registeredChan\<close>: nothing receives.
\<close>

theorem Shutdown_blocks_counterexample:
  "threads (exec (init True None) stuck) ! 1 = InShutdown Sh127
   \<and> activeRequests (exec (init True None) stuck) = 1
   \<and> (Thread 1, ManagerRemove) \<notin> set (trace (exec (init True None) stuck))
   \<and> (Thread 1, DelegateStopped) \<notin> set (trace (exec (init True None) stuck))
   \<and> threads (exec (init True None) (stuck @ [Run 1 None, Run 1 None, Run 1 None])) ! 1
       = InShutdown Sh127
   \<and> actor (exec (init True None) graceful) = Finished
   \<and> threads (exec (init True None)
         (graceful @ [Call CallRegister, Run 2 None, RecvRegistered 2, Run 2 None])) ! 2
       = InRegister Sending"
  by code_simp

text \<open>
  Claim C7, amended. \<^verbatim>\<open>Register()\<close> and \<^verbatim>\<open>Unregister()\<close> (and the sends of
  \<^verbatim>\<open>Start\<close> and \<^verbatim>\<open>Shutdown\<close> on the same channel) hand one value to the
  actor: the caller stays in the send whatever else happens, and while the actor is not in
  its \<^verbatim>\<open>select\<close> the value is not taken; when the \<^verbatim>\<open>select\<close> receives it the
  caller goes on, with the flag and the actor's actions still as they were, and the flag
  takes the value when the actor handles the message. \<^verbatim>\<open>Shutdown()\<close> is no such
  trigger: it is held at line 127 while a request is in flight, and a call that reaches
  the end of the function has itself waited for the requests and called \<^verbatim>\<open>Remove\<close>
  and \<^verbatim>\<open>Stopped\<close>.
\<close>

theorem triggers_wait_for_the_actor:
  "(t < length (threads s) \<and> sending (threads s ! t) = Some (b, th) \<longrightarrow>
      (c \<noteq> RecvRegistered t \<longrightarrow> threads (step s c) ! t = threads s ! t)
      \<and> (actor s \<noteq> Selecting \<longrightarrow> step s (RecvRegistered t) = s)
      \<and> (\<not> crashed s \<and> actor s = Selecting \<longrightarrow>
            threads (step s (RecvRegistered t)) ! t = th
            \<and> Registered (step s (RecvRegistered t)) = Registered s
            \<and> performed Actor (step s (RecvRegistered t)) = performed Actor s
            \<and> Registered (step (step s (RecvRegistered t)) (Handle e)) = b))
   \<and> (t < length (threads s) \<and> threads s ! t = InShutdown Sh127 \<and> activeRequests s \<noteq> 0 \<longrightarrow>
        step s (Run t r) = s)
   \<and> (u < length (threads (exec (init reg be) sched))
        \<and> threads (exec (init reg be) sched) ! u = InShutdown Sh137 \<longrightarrow>
        (\<exists>r'. performed (Thread u) (exec (init reg be) sched) = Shutdown_progress Sh137 r')
        \<and> ActiveRequestsWait \<in> set (performed (Thread u) (exec (init reg be) sched))
        \<and> ManagerRemove \<in> set (performed (Thread u) (exec (init reg be) sched))
        \<and> DelegateStopped \<in> set (performed (Thread u) (exec (init reg be) sched)))"
proof (intro conjI impI)
  assume a: "u < length (threads (exec (init reg be) sched))
        \<and> threads (exec (init reg be) sched) ! u = InShutdown Sh137"
  have p: "progress_inv (exec (init reg be) sched)"
    by (rule progress_inv_exec) (rule progress_inv_init)
  then obtain r' where
    r': "performed (Thread u) (exec (init reg be) sched) = Shutdown_progress Sh137 r'"
    using a unfolding progress_inv_def by (metis progress.simps(6))
  then show "\<exists>r'. performed (Thread u) (exec (init reg be) sched) = Shutdown_progress Sh137 r'"
    by blast
  show "ActiveRequestsWait \<in> set (performed (Thread u) (exec (init reg be) sched))"
    "ManagerRemove \<in> set (performed (Thread u) (exec (init reg be) sched))"
    "DelegateStopped \<in> set (performed (Thread u) (exec (init reg be) sched))"
    by (simp_all add: r')
next
  assume "t < length (threads s) \<and> sending (threads s ! t) = Some (b, th)"
    and "c \<noteq> RecvRegistered t"
  then show "threads (step s c) ! t = threads s ! t" using sending_blocked_step by blast
next
  assume "actor s \<noteq> Selecting"
  then show "step s (RecvRegistered t) = s" by (rule not_selecting_no_receive)
next
  assume a: "t < length (threads s) \<and> sending (threads s ! t) = Some (b, th)"
    and b: "\<not> crashed s \<and> actor s = Selecting"
  from a b have l: "t < length (threads s)" and sd: "sending (threads s ! t) = Some (b, th)"
    and nc: "\<not> crashed s" and ac: "actor s = Selecting" by simp_all
  show "threads (step s (RecvRegistered t)) ! t = th" by (rule sending_received(1)[OF l sd nc ac])
  show "Registered (step s (RecvRegistered t)) = Registered s"
    by (rule sending_received(2)[OF l sd nc ac])
  show "performed Actor (step s (RecvRegistered t)) = performed Actor s"
    by (rule sending_received(3)[OF l sd nc ac])
  show "Registered (step (step s (RecvRegistered t)) (Handle e)) = b"
    by (rule sending_received(4)[OF l sd nc ac])
next
  assume "t < length (threads s) \<and> threads s ! t = InShutdown Sh127 \<and> activeRequests s \<noteq> 0"
  then show "step s (Run t r) = s" using Wait_blocked by blast
qed

theorem triggers_wait_for_the_actor_witness:
  "threads (exec (init True None) (startup @ [Call CallUnregister])) ! 1 = InUnregister Sending
   \<and> threads (step (exec (init True None) (startup @ [Call CallUnregister])) (Run 1 None)) ! 1
       = InUnregister Sending
   \<and> threads (step (exec (init True None) (startup @ [Call CallUnregister]))
                (RecvRegistered 1)) ! 1 = InUnregister Returned
   \<and> Registered (step (exec (init True None) (startup @ [Call CallUnregister]))
                (RecvRegistered 1))
   \<and> \<not> Registered (step (step (exec (init True None) (startup @ [Call CallUnregister]))
                        (RecvRegistered 1)) (Handle (answers ''unused'')))
   \<and> threads (exec (init True None) stuck) ! 1 = InShutdown Sh127
   \<and> step (exec (init True None) stuck) (Run 1 None) = exec (init True None) stuck
   \<and> threads (exec (init True None) graceful) ! 1 = InShutdown Sh137
   \<and> ManagerRemove \<in> set (performed (Thread 1) (exec (init True None) graceful))
   \<and> DelegateStopped \<in> set (performed (Thread 1) (exec (init True None) graceful))"
proof -
  let ?s = "exec (init True None) (startup @ [Call CallUnregister])"
  have l: "1 < length (threads ?s)" by code_simp
  have t: "threads ?s ! 1 = InUnregister Sending" by code_simp
  then have sd: "sending (threads ?s ! 1) = Some (False, InUnregister Returned)" by simp
  have nc: "\<not> crashed ?s" by code_simp
  have ac: "actor ?s = Selecting" by code_simp
  have rg: "Registered ?s" by code_simp
  have ne: "Run 1 None \<noteq> RecvRegistered 1" by simp
  note a = triggers_wait_for_the_actor
    [of 1 ?s False "InUnregister Returned" "Run 1 None" "answers ''unused''"]
  have a1: "threads (step ?s (Run 1 None)) ! 1 = InUnregister Sending"
    using a l sd ne t by metis
  have a2: "threads (step ?s (RecvRegistered 1)) ! 1 = InUnregister Returned"
    using a l sd nc ac by blast
  have a3: "Registered (step ?s (RecvRegistered 1))"
    using a l sd nc ac rg by blast
  have a4: "\<not> Registered (step (step ?s (RecvRegistered 1)) (Handle (answers ''unused'')))"
    using a l sd nc ac by blast
  have l2: "1 < length (threads (exec (init True None) stuck))" by code_simp
  have t2: "threads (exec (init True None) stuck) ! 1 = InShutdown Sh127" by code_simp
  have r2: "activeRequests (exec (init True None) stuck) \<noteq> 0" by code_simp
  have b1: "step (exec (init True None) stuck) (Run 1 None) = exec (init True None) stuck"
    using triggers_wait_for_the_actor [of 1 "exec (init True None) stuck" _ _ _ _ None]
      l2 t2 r2 by blast
  have l3: "1 < length (threads (exec (init True None) graceful))" by code_simp
  have t3: "threads (exec (init True None) graceful) ! 1 = InShutdown Sh137" by code_simp
  have c1: "ManagerRemove \<in> set (performed (Thread 1) (exec (init True None) graceful))"
    "DelegateStopped \<in> set (performed (Thread 1) (exec (init True None) graceful))"
    using triggers_wait_for_the_actor [of _ _ _ _ _ _ _ 1 True None graceful] l3 t3 by blast+
  from t a1 a2 a3 a4 t2 b1 t3 c1 show ?thesis by (intro conjI)
qed

subsection \<open>The order of Shutdown\<close>

lemma performed_append_trace:
  "trace s = pre @ p # post \<Longrightarrow>
   performed w s = map snd (filter (\<lambda>q. fst q = w) pre)
                   @ (if fst p = w then [snd p] else [])
                   @ map snd (filter (\<lambda>q. fst q = w) post)"
  by (simp add: performed_def)

lemma mem_performed_prefix:
  "a \<in> set (map snd (filter (\<lambda>q. fst q = w) pre)) \<Longrightarrow> (w, a) \<in> set pre"
  by auto

lemma Shutdown_progress_prefix:
  "prefix (Shutdown_progress pc r) (Shutdown_progress Sh137 r)"
  by (cases pc) (simp_all add: prefix_def)

lemma Shutdown_progress_named:
  "filter (\<lambda>a. a \<in> set Shutdown_sequence) (Shutdown_progress Sh137 r) = Shutdown_sequence"
  by (cases r) (simp_all add: Shutdown_sequence_def manager_log_def)

text \<open>In what a thread in Shutdown has done, the wait comes before remove and Stopped.\<close>

lemma wait_before:
  assumes "xs @ a # ys = Shutdown_progress pc r" "a = ManagerRemove \<or> a = DelegateStopped"
  shows "ActiveRequestsWait \<in> set xs"
proof -
  have "xs @ a # ys = Shutdown_progress pc r" by fact
  then show ?thesis using assms(2)
    by (cases pc; cases r)
       (auto simp: manager_log_def append_eq_Cons_conv Cons_eq_append_conv)
qed

lemma progress_only_Shutdown:
  "a \<in> set (progress th r) \<Longrightarrow> a = ManagerRemove \<or> a = DelegateStopped \<Longrightarrow>
   \<exists>pc. th = InShutdown pc"
proof (cases th)
  case (InStart reg pc)
  assume "a \<in> set (progress th r)" "a = ManagerRemove \<or> a = DelegateStopped"
  with InStart show ?thesis by (cases pc; cases r) (auto simp: manager_log_def split: if_splits)
next
  case (InRegister pc)
  assume "a \<in> set (progress th r)" "a = ManagerRemove \<or> a = DelegateStopped"
  with InRegister show ?thesis by (cases pc) auto
next
  case (InUnregister pc)
  assume "a \<in> set (progress th r)" "a = ManagerRemove \<or> a = DelegateStopped"
  with InUnregister show ?thesis by (cases pc) auto
qed simp

lemma remove_after_drain:
  assumes p: "progress_inv s" and q: "requests_inv s"
    and tr: "trace s = pre @ (Thread t, a) # post"
    and a: "a = ManagerRemove \<or> a = DelegateStopped"
  shows "\<exists>p1 p2. pre = p1 @ (Thread t, ActiveRequestsWait) # p2 \<and> in_flight p1 = 0"
proof -
  let ?P = "\<lambda>xs. map snd (filter (\<lambda>q. fst q = Thread t) xs)"
  have perf: "performed (Thread t) s = ?P pre @ a # ?P post"
    using performed_append_trace[OF tr, of "Thread t"] by simp
  then have ne: "performed (Thread t) s \<noteq> []" by simp
  then have lt: "t < length (threads s)" using p unfolding progress_inv_def by metis
  then obtain r where r: "performed (Thread t) s = progress (threads s ! t) r"
    using p unfolding progress_inv_def by metis
  have "a \<in> set (progress (threads s ! t) r)" using perf r by (metis in_set_conv_decomp)
  then obtain pc where pc: "threads s ! t = InShutdown pc" using progress_only_Shutdown a by blast
  have "?P pre @ a # ?P post = Shutdown_progress pc r" using perf r pc by simp
  then have "ActiveRequestsWait \<in> set (?P pre)" using a by (rule wait_before)
  then have "(Thread t, ActiveRequestsWait) \<in> set pre" by (rule mem_performed_prefix)
  then obtain p1 p2 where pre: "pre = p1 @ (Thread t, ActiveRequestsWait) # p2"
    by (meson split_list)
  have w: "waits_ok 0 (trace s)" using q unfolding requests_inv_def by blast
  have "trace s = p1 @ (Thread t, ActiveRequestsWait) # (p2 @ (Thread t, a) # post)"
    unfolding tr pre by simp
  with w have "waits_ok 0 (p1 @ (Thread t, ActiveRequestsWait) # (p2 @ (Thread t, a) # post))"
    by metis
  then have "0 + in_flight p1 = 0" by (rule waits_ok_decomp)
  then have "in_flight p1 = 0" by simp
  with pre show ?thesis by blast
qed

lemma sending_received_actor:
  assumes "t < length (threads s)" "sending (threads s ! t) = Some (b, th)"
    "\<not> crashed s" "actor s = Selecting"
  shows "actor (step s (RecvRegistered t)) = Handling (RegisteredMsg b)"
  using assms by (simp add: step_def recv_registered_def)

text \<open>
  Claim C5 puts the unregister before the signal to the actor, the wait, the directory's
  \<^verbatim>\<open>Remove\<close> and the delegate's \<^verbatim>\<open>Stopped\<close>. What \<^verbatim>\<open>Shutdown()\<close> does
  at line 121 is the send of \<^verbatim>\<open>s.Unregister()\<close>; \<^verbatim>\<open>unregister()\<close> itself
  is run by the actor, and nothing in lines 123 to 136 waits for it. In the run
  \<open>early\<close> the call has reached the end of the function, with \<^verbatim>\<open>Remove\<close>,
  \<^verbatim>\<open>Stopped\<close> and \<^verbatim>\<open>doneGroup.Done()\<close> done, while the service is still
  registered and the actor has not yet called the directory's \<^verbatim>\<open>Unregister\<close>;
  it does so afterwards.
\<close>

theorem Shutdown_ends_before_unregister_counterexample:
  "threads (exec (init True None) early) ! 1 = InShutdown Sh137
   \<and> Registered (exec (init True None) early)
   \<and> actor (exec (init True None) early) = Handling (RegisteredMsg False)
   \<and> trace (exec (init True None) (early @ [Handle (answers ''unused'')])) =
       [(ListenerG, Log INFO ''ServiceListening''), (ListenerG, BindWaitDone),
        (Thread 0, BindWaitWait), (Thread 0, ManagerAdd), (Thread 0, SendRegistered True),
        (Actor, ManagerRegister), (Actor, Log INFO ''ServiceRegistered''),
        (Actor, DelegateRegistered), (Thread 0, DelegateStarted),
        (Thread 1, SetShuttingDown), (Thread 1, SendRegistered False),
        (Thread 1, DoneGroupAdd), (Thread 1, SendDone), (Thread 1, ActiveRequestsWait),
        (Thread 1, ManagerRemove), (Thread 1, DelegateStopped), (Thread 1, DoneGroupDone),
        (Actor, ManagerUnregister), (Actor, Log INFO ''ServiceUnregistered''),
        (Actor, DelegateUnregistered)]"
  by code_simp

text \<open>
  Claim C5, amended. In every run, what a goroutine in \<^verbatim>\<open>Shutdown()\<close> has done so
  far is the part of one fixed sequence that ends before the line it is at: set
  \<^verbatim>\<open>shuttingDown\<close>, send the unregister event to the actor, add one to
  \<^verbatim>\<open>doneGroup\<close>, send on \<^verbatim>\<open>doneChan\<close>, return from
  \<^verbatim>\<open>activeRequests.Wait()\<close>, call the service manager's \<^verbatim>\<open>Remove\<close> (and log
  its error), call the delegate's \<^verbatim>\<open>Stopped\<close>, call \<^verbatim>\<open>doneGroup.Done()\<close>. A
  call that has reached the end of the function has done these, in this order. Wherever
  the trace shows the \<^verbatim>\<open>Remove\<close> or the \<^verbatim>\<open>Stopped\<close> of that goroutine, its
  \<^verbatim>\<open>Wait()\<close> returned earlier in the trace, at a moment when no request counted
  until then was still in flight. And the send of the unregister event is a handing over:
  when the actor's \<^verbatim>\<open>select\<close> receives it the goroutine goes on to line 123, the
  actor holds the event, and the flag and the actor's actions are still as they were; the
  flag is false once the actor has handled the event, so that what \<^verbatim>\<open>unregister()\<close>
  does comes after the send, at a time of the actor's.
\<close>

theorem Shutdown_runs_in_order:
  assumes "t < length (threads (exec (init reg be) sched))"
    and "threads (exec (init reg be) sched) ! t = InShutdown pc"
  shows "(\<exists>r. performed (Thread t) (exec (init reg be) sched) = Shutdown_progress pc r
            \<and> prefix (performed (Thread t) (exec (init reg be) sched)) (Shutdown_progress Sh137 r)
            \<and> (pc = Sh137 \<longrightarrow>
                 filter (\<lambda>a. a \<in> set Shutdown_sequence)
                   (performed (Thread t) (exec (init reg be) sched)) = Shutdown_sequence))
         \<and> (\<forall>pre post a.
               trace (exec (init reg be) sched) = pre @ (Thread t, a) # post
               \<and> (a = ManagerRemove \<or> a = DelegateStopped) \<longrightarrow>
               (\<exists>p1 p2. pre = p1 @ (Thread t, ActiveRequestsWait) # p2 \<and> in_flight p1 = 0))
         \<and> (pc = Sh121 \<and> \<not> crashed (exec (init reg be) sched)
               \<and> actor (exec (init reg be) sched) = Selecting \<longrightarrow>
             threads (step (exec (init reg be) sched) (RecvRegistered t)) ! t = InShutdown Sh123
             \<and> actor (step (exec (init reg be) sched) (RecvRegistered t))
                 = Handling (RegisteredMsg False)
             \<and> Registered (step (exec (init reg be) sched) (RecvRegistered t))
                 = Registered (exec (init reg be) sched)
             \<and> performed Actor (step (exec (init reg be) sched) (RecvRegistered t))
                 = performed Actor (exec (init reg be) sched)
             \<and> \<not> Registered (step (step (exec (init reg be) sched) (RecvRegistered t))
                                (Handle e)))"
proof -
  define s where "s = exec (init reg be) sched"
  have p: "progress_inv s" unfolding s_def by (rule progress_inv_exec) (rule progress_inv_init)
  have q: "requests_inv s" unfolding s_def by (rule requests_inv_exec) (rule requests_inv_init)
  have lt: "t < length (threads s)" and pc: "threads s ! t = InShutdown pc"
    using assms by (simp_all add: s_def)
  obtain r where r: "performed (Thread t) s = progress (threads s ! t) r"
    using p lt unfolding progress_inv_def by metis
  then have r': "performed (Thread t) s = Shutdown_progress pc r"
    using pc by simp
  have a: "\<exists>r. performed (Thread t) s = Shutdown_progress pc r
            \<and> prefix (performed (Thread t) s) (Shutdown_progress Sh137 r)
            \<and> (pc = Sh137 \<longrightarrow>
                 filter (\<lambda>a. a \<in> set Shutdown_sequence) (performed (Thread t) s)
                   = Shutdown_sequence)"
    using r' Shutdown_progress_prefix[of pc r] Shutdown_progress_named[of r] by auto
  have b: "\<forall>pre post a.
               trace s = pre @ (Thread t, a) # post
               \<and> (a = ManagerRemove \<or> a = DelegateStopped) \<longrightarrow>
               (\<exists>p1 p2. pre = p1 @ (Thread t, ActiveRequestsWait) # p2 \<and> in_flight p1 = 0)"
    using remove_after_drain[OF p q] by blast
  have c: "threads (step s (RecvRegistered t)) ! t = InShutdown Sh123
             \<and> actor (step s (RecvRegistered t)) = Handling (RegisteredMsg False)
             \<and> Registered (step s (RecvRegistered t)) = Registered s
             \<and> performed Actor (step s (RecvRegistered t)) = performed Actor s
             \<and> \<not> Registered (step (step s (RecvRegistered t)) (Handle e))"
    if h: "pc = Sh121 \<and> \<not> crashed s \<and> actor s = Selecting"
  proof -
    have sd: "sending (threads s ! t) = Some (False, InShutdown Sh123)" using pc h by simp
    have nc: "\<not> crashed s" and ac: "actor s = Selecting" using h by simp_all
    show ?thesis
      using sending_received(1-3)[OF lt sd nc ac] sending_received(4)[OF lt sd nc ac, of e]
        sending_received_actor[OF lt sd nc ac]
      by simp
  qed
  from a b c show ?thesis unfolding s_def by blast
qed

theorem Shutdown_runs_in_order_witness:
  "1 < length (threads (exec (init True None) graceful))
   \<and> threads (exec (init True None) graceful) ! 1 = InShutdown Sh137
   \<and> doneGroup (exec (init True None) graceful) = Some 0
   \<and> performed (Thread 1) (exec (init True None) graceful) =
       [SetShuttingDown, SendRegistered False, DoneGroupAdd, SendDone, ActiveRequestsWait,
        ManagerRemove, Log ERROR ''Failed to remove service: gone'', DelegateStopped,
        DoneGroupDone]
   \<and> filter (\<lambda>a. a \<in> set Shutdown_sequence)
        (performed (Thread 1) (exec (init True None) graceful)) = Shutdown_sequence
   \<and> threads (exec (init True None) (startup @ [Call CallShutdown, Run 1 None, Run 1 None])) ! 1
       = InShutdown Sh121
   \<and> threads (step (exec (init True None)
                  (startup @ [Call CallShutdown, Run 1 None, Run 1 None]))
                (RecvRegistered 1)) ! 1 = InShutdown Sh123
   \<and> actor (step (exec (init True None)
                  (startup @ [Call CallShutdown, Run 1 None, Run 1 None]))
                (RecvRegistered 1)) = Handling (RegisteredMsg False)
   \<and> Registered (step (exec (init True None)
                  (startup @ [Call CallShutdown, Run 1 None, Run 1 None]))
                (RecvRegistered 1))
   \<and> \<not> Registered (step (step (exec (init True None)
                         (startup @ [Call CallShutdown, Run 1 None, Run 1 None]))
                       (RecvRegistered 1)) (Handle (answers ''unused'')))
   \<and> (\<exists>p1 p2.
        [(ListenerG, Log INFO ''ServiceListening''), (ListenerG, BindWaitDone),
         (Thread 0, BindWaitWait), (Thread 0, ManagerAdd), (Thread 0, SendRegistered True),
         (Actor, ManagerRegister), (Actor, Log INFO ''ServiceRegistered''),
         (Actor, DelegateRegistered), (Thread 0, DelegateStarted),
         (Actor, Encode (TCPConn 1 ''10.0.0.5:51000'') (ServiceHandshake True ''id-1'')),
         (Actor, Decode (TCPConn 1 ''10.0.0.5:51000'')),
         (Actor, ServeCodec (TCPConn 1 ''10.0.0.5:51000'')),
         (Serving, ActiveRequestsAdd), (Thread 1, SetShuttingDown),
         (Thread 1, SendRegistered False), (Actor, ManagerUnregister),
         (Actor, Log INFO ''ServiceUnregistered''), (Actor, DelegateUnregistered),
         (Thread 1, DoneGroupAdd), (Thread 1, SendDone), (Actor, GoDrain),
         (Actor, DoneGroupDone), (Serving, ActiveRequestsDone),
         (Thread 1, ActiveRequestsWait)]
        = p1 @ (Thread 1, ActiveRequestsWait) # p2 \<and> in_flight p1 = 0)"
proof -
  have len: "1 < length (threads (exec (init True None) graceful))" by code_simp
  have th: "threads (exec (init True None) graceful) ! 1 = InShutdown Sh137" by code_simp
  have dg: "doneGroup (exec (init True None) graceful) = Some 0" by code_simp
  have pf: "performed (Thread 1) (exec (init True None) graceful) =
       [SetShuttingDown, SendRegistered False, DoneGroupAdd, SendDone, ActiveRequestsWait,
        ManagerRemove, Log ERROR ''Failed to remove service: gone'', DelegateStopped,
        DoneGroupDone]"
    by code_simp
  have tr: "trace (exec (init True None) graceful) =
        [(ListenerG, Log INFO ''ServiceListening''), (ListenerG, BindWaitDone),
         (Thread 0, BindWaitWait), (Thread 0, ManagerAdd), (Thread 0, SendRegistered True),
         (Actor, ManagerRegister), (Actor, Log INFO ''ServiceRegistered''),
         (Actor, DelegateRegistered), (Thread 0, DelegateStarted),
         (Actor, Encode (TCPConn 1 ''10.0.0.5:51000'') (ServiceHandshake True ''id-1'')),
         (Actor, Decode (TCPConn 1 ''10.0.0.5:51000'')),
         (Actor, ServeCodec (TCPConn 1 ''10.0.0.5:51000'')),
         (Serving, ActiveRequestsAdd), (Thread 1, SetShuttingDown),
         (Thread 1, SendRegistered False), (Actor, ManagerUnregister),
         (Actor, Log INFO ''ServiceUnregistered''), (Actor, DelegateUnregistered),
         (Thread 1, DoneGroupAdd), (Thread 1, SendDone), (Actor, GoDrain),
         (Actor, DoneGroupDone), (Serving, ActiveRequestsDone),
         (Thread 1, ActiveRequestsWait)]
        @ (Thread 1, ManagerRemove)
        # [(Thread 1, Log ERROR ''Failed to remove service: gone''),
           (Thread 1, DelegateStopped), (Thread 1, DoneGroupDone)]"
    by code_simp
  note main = Shutdown_runs_in_order [OF len th]
  have seq: "filter (\<lambda>a. a \<in> set Shutdown_sequence)
        (performed (Thread 1) (exec (init True None) graceful)) = Shutdown_sequence"
    using main by blast
  have dr: "\<exists>p1 p2.
        [(ListenerG, Log INFO ''ServiceListening''), (ListenerG, BindWaitDone),
         (Thread 0, BindWaitWait), (Thread 0, ManagerAdd), (Thread 0, SendRegistered True),
         (Actor, ManagerRegister), (Actor, Log INFO ''ServiceRegistered''),
         (Actor, DelegateRegistered), (Thread 0, DelegateStarted),
         (Actor, Encode (TCPConn 1 ''10.0.0.5:51000'') (ServiceHandshake True ''id-1'')),
         (Actor, Decode (TCPConn 1 ''10.0.0.5:51000'')),
         (Actor, ServeCodec (TCPConn 1 ''10.0.0.5:51000'')),
         (Serving, ActiveRequestsAdd), (Thread 1, SetShuttingDown),
         (Thread 1, SendRegistered False), (Actor, ManagerUnregister),
         (Actor, Log INFO ''ServiceUnregistered''), (Actor, DelegateUnregistered),
         (Thread 1, DoneGroupAdd), (Thread 1, SendDone), (Actor, GoDrain),
         (Actor, DoneGroupDone), (Serving, ActiveRequestsDone),
         (Thread 1, ActiveRequestsWait)]
        = p1 @ (Thread 1, ActiveRequestsWait) # p2 \<and> in_flight p1 = 0"
    using main [THEN conjunct2, THEN conjunct1, rule_format, OF conjI, OF tr] by blast
  let ?s = "exec (init True None) (startup @ [Call CallShutdown, Run 1 None, Run 1 None])"
  have l1: "1 < length (threads ?s)" by code_simp
  have t1: "threads ?s ! 1 = InShutdown Sh121" by code_simp
  have n1: "\<not> crashed ?s" by code_simp
  have a1: "actor ?s = Selecting" by code_simp
  have r1: "Registered ?s" by code_simp
  note hand = Shutdown_runs_in_order [OF l1 t1, THEN conjunct2, THEN conjunct2, rule_format]
  have h1: "threads (step ?s (RecvRegistered 1)) ! 1 = InShutdown Sh123"
    and h2: "actor (step ?s (RecvRegistered 1)) = Handling (RegisteredMsg False)"
    and h3: "Registered (step ?s (RecvRegistered 1))"
    and h4: "\<not> Registered (step (step ?s (RecvRegistered 1)) (Handle (answers ''unused'')))"
    using hand n1 a1 r1 by simp_all
  from len th dg pf seq t1 h1 h2 h3 h4 dr show ?thesis by (intro conjI)
qed

subsection \<open>Two calls of Shutdown at the same time\<close>

text \<open>
  Claim C6 says that any number of calls of \<^verbatim>\<open>Shutdown()\<close>, concurrent ones too,
  run the shutdown sequence once. The guard of lines 115 to 119 reads the flag and sets it
  in two statements, with no lock: in the run \<open>racing\<close> two goroutines both read
  \<^verbatim>\<open>false\<close> before either writes, and each runs the whole sequence, so that the
  service manager's \<^verbatim>\<open>Remove\<close> and the delegate's \<^verbatim>\<open>Stopped\<close> are called
  twice. A third call, made after the flag is set, returns at line 116 and does nothing.
\<close>

theorem concurrent_Shutdown_runs_twice:
  "threads (exec (init True None) racing) = [InStart True St180, InShutdown Sh137, InShutdown Sh137]
   \<and> performed (Thread 1) (exec (init True None) racing) =
       [SetShuttingDown, SendRegistered False, DoneGroupAdd, SendDone, ActiveRequestsWait,
        ManagerRemove, DelegateStopped, DoneGroupDone]
   \<and> performed (Thread 2) (exec (init True None) racing) =
       [SetShuttingDown, SendRegistered False, DoneGroupAdd, SendDone, ActiveRequestsWait,
        ManagerRemove, DelegateStopped, DoneGroupDone]
   \<and> length (filter (\<lambda>p. snd p = ManagerRemove) (trace (exec (init True None) racing))) = 2
   \<and> length (filter (\<lambda>p. snd p = DelegateStopped) (trace (exec (init True None) racing))) = 2
   \<and> \<not> crashed (exec (init True None) racing)
   \<and> threads (exec (init True None) (racing @ [Call CallShutdown, Run 3 None])) ! 3
       = InShutdown Sh116
   \<and> performed (Thread 3) (exec (init True None) (racing @ [Call CallShutdown, Run 3 None])) = []"
  by code_simp

end
